theory Spec2Isabelle
  imports Main "HOL-Library.Word" "HOL-Library.AList"
begin

section \<open>Raw storage, pointers and element lifetimes\<close>

text \<open>
  The container of \<^verbatim>\<open>vector.h\<close> keeps three fields: a pointer \<^verbatim>\<open>arr_\<close> to a block of raw
  storage obtained from the allocator, and two \<^verbatim>\<open>size_t\<close> counters \<^verbatim>\<open>sz_\<close> and \<^verbatim>\<open>cap_\<close>.
  Elements are constructed into and destroyed in the slots of the block by hand, so the
  model tracks, for every slot of every block, whether it holds a live object.

  A pointer is a block identifier together with an element offset. Block \<open>0\<close> is never
  allocated: it is the region of the null pointer. Pointers are ordered by block first
  and by offset second, which is the order of a flat address space in which the blocks
  lie apart from each other.
\<close>

type_synonym size_type = "64 word"

type_synonym ptr = "nat \<times> int"

definition nullptr :: ptr where
  "nullptr = (0, 0)"

definition ptr_add :: "ptr \<Rightarrow> int \<Rightarrow> ptr" where
  "ptr_add p n = (fst p, snd p + n)"

definition ptr_less :: "ptr \<Rightarrow> ptr \<Rightarrow> bool" where
  "ptr_less p q = (fst p < fst q \<or> (fst p = fst q \<and> snd p < snd q))"

definition ptr_le :: "ptr \<Rightarrow> ptr \<Rightarrow> bool" where
  "ptr_le p q = (\<not> ptr_less q p)"

text \<open>The difference of two pointers is defined only inside one block.\<close>

definition ptr_diff :: "ptr \<Rightarrow> ptr \<Rightarrow> int option" where
  "ptr_diff p q = (if fst p = fst q then Some (snd p - snd q) else None)"

datatype 'a slot = Raw | Live 'a

record 'a heap =
  blocks :: "(nat \<times> 'a slot list) list"
  next_id :: nat
  ctor_calls :: nat

text \<open>
  What the element type and the allocator contribute. \<open>nothrow_move\<close> and \<open>copyable\<close>
  are the two type traits \<^verbatim>\<open>std::move_if_noexcept\<close> looks at, \<open>moved_from\<close> is the state a
  move constructor leaves its source in, \<open>throws k\<close> says whether the \<open>k\<close>-th construction
  of an element (counted from \<open>0\<close> by \<open>ctor_calls\<close>) fails, and \<open>can_alloc n\<close> whether the
  allocator can supply a block of \<open>n\<close> slots.
\<close>

record 'a env =
  nothrow_move :: bool
  copyable :: bool
  moved_from :: "'a \<Rightarrow> 'a"
  throws :: "nat \<Rightarrow> bool"
  can_alloc :: "nat \<Rightarrow> bool"

datatype exn = OutOfRange | BadAlloc | ElemFailure

text \<open>
  An operation either has undefined behaviour, or throws (the state at the throw is
  kept, since the exception guarantees are about it), or returns.
\<close>

datatype 'x error = UB | Throw exn 'x

definition lookup :: "'a heap \<Rightarrow> nat \<Rightarrow> 'a slot list option" where
  "lookup h b = map_of (blocks h) b"

definition peek :: "'a heap \<Rightarrow> ptr \<Rightarrow> 'a slot option" where
  "peek h p =
     (case lookup h (fst p) of
        None \<Rightarrow> None
      | Some blk \<Rightarrow>
          if 0 \<le> snd p \<and> nat (snd p) < length blk then Some (blk ! nat (snd p)) else None)"

definition poke :: "'a heap \<Rightarrow> ptr \<Rightarrow> 'a slot \<Rightarrow> 'a heap" where
  "poke h p s =
     (case lookup h (fst p) of
        None \<Rightarrow> h
      | Some blk \<Rightarrow> h\<lparr>blocks := AList.update (fst p) (blk[nat (snd p) := s]) (blocks h)\<rparr>)"

text \<open>\<^verbatim>\<open>alloc_traits::allocate(alloc_, n)\<close>: a fresh block of \<open>n\<close> raw slots, or \<^verbatim>\<open>bad_alloc\<close>.\<close>

definition allocate :: "'a env \<Rightarrow> nat \<Rightarrow> 'a heap \<Rightarrow> (ptr \<times> 'a heap) option" where
  "allocate env n h =
     (if can_alloc env n
      then Some ((next_id h, 0),
                 h\<lparr>blocks := (next_id h, replicate n Raw) # blocks h, next_id := Suc (next_id h)\<rparr>)
      else None)"

text \<open>
  \<^verbatim>\<open>alloc_traits::deallocate(alloc_, p, n)\<close>: releasing the null pointer does nothing; any
  other pointer must be the start of an allocated block of \<open>n\<close> slots.
\<close>

definition deallocate :: "ptr \<Rightarrow> nat \<Rightarrow> 'a heap \<Rightarrow> 'a heap option" where
  "deallocate p n h =
     (if p = nullptr then Some h
      else case lookup h (fst p) of
             None \<Rightarrow> None
           | Some blk \<Rightarrow>
               if snd p = 0 \<and> length blk = n
               then Some (h\<lparr>blocks := AList.delete (fst p) (blocks h)\<rparr>)
               else None)"

text \<open>
  \<^verbatim>\<open>alloc_traits::construct(alloc_, p, value)\<close> with a value that does not live in a block
  of the container: the constructor runs (and may throw), then the slot holds the value.
\<close>

definition construct_at :: "'a env \<Rightarrow> ptr \<Rightarrow> 'a \<Rightarrow> 'a heap \<Rightarrow> 'a heap error + 'a heap" where
  "construct_at env p x h =
     (let h1 = h\<lparr>ctor_calls := Suc (ctor_calls h)\<rparr> in
      if throws env (ctor_calls h) then Inl (Throw ElemFailure h1)
      else case peek h1 p of
             None \<Rightarrow> Inl UB
           | Some s \<Rightarrow> Inr (poke h1 p (Live x)))"

text \<open>\<^verbatim>\<open>alloc_traits::construct(alloc_, dst, *src)\<close>: copy construction from a live object.\<close>

definition construct_copy :: "'a env \<Rightarrow> ptr \<Rightarrow> ptr \<Rightarrow> 'a heap \<Rightarrow> 'a heap error + 'a heap" where
  "construct_copy env dst src h =
     (case peek h src of
        Some (Live x) \<Rightarrow> construct_at env dst x h
      | Some Raw \<Rightarrow> Inl UB
      | None \<Rightarrow> Inl UB)"

text \<open>
  \<^verbatim>\<open>alloc_traits::construct(alloc_, dst, std::move_if_noexcept(*src))\<close>. The source is moved
  from when the move constructor cannot throw or when there is no copy constructor, and
  copied otherwise; only a move constructor that cannot throw is exempt from failure.
\<close>

definition uses_move :: "'a env \<Rightarrow> bool" where
  "uses_move env = (if nothrow_move env then True else \<not> copyable env)"

definition construct_from :: "'a env \<Rightarrow> ptr \<Rightarrow> ptr \<Rightarrow> 'a heap \<Rightarrow> 'a heap error + 'a heap" where
  "construct_from env dst src h =
     (case peek h src of
        Some (Live x) \<Rightarrow>
          (let h1 = h\<lparr>ctor_calls := Suc (ctor_calls h)\<rparr> in
           if \<not> nothrow_move env \<and> throws env (ctor_calls h) then Inl (Throw ElemFailure h1)
           else
             let h2 = (if uses_move env then poke h1 src (Live (moved_from env x)) else h1) in
             case peek h2 dst of
               None \<Rightarrow> Inl UB
             | Some s \<Rightarrow> Inr (poke h2 dst (Live x)))
      | Some Raw \<Rightarrow> Inl UB
      | None \<Rightarrow> Inl UB)"

text \<open>\<^verbatim>\<open>alloc_traits::destroy(alloc_, p)\<close>: ends the lifetime of the object in the slot.\<close>

definition destroy_at :: "ptr \<Rightarrow> 'a heap \<Rightarrow> 'a heap option" where
  "destroy_at p h =
     (case peek h p of
        Some (Live x) \<Rightarrow> Some (poke h p Raw)
      | Some Raw \<Rightarrow> None
      | None \<Rightarrow> None)"

section \<open>Loops\<close>

text \<open>
  A counting loop runs its body over the values of the counter in order. A throw leaves
  the loop at once; the value of the counter at the throw is kept for the handler.
\<close>

primrec for_each ::
  "(nat \<Rightarrow> 'h \<Rightarrow> 'h error + 'h) \<Rightarrow> nat list \<Rightarrow> 'h \<Rightarrow> ('h \<times> nat) error + 'h" where
  "for_each body [] h = Inr h"
| "for_each body (i # is) h =
     (case body i h of
        Inl UB \<Rightarrow> Inl UB
      | Inl (Throw e h') \<Rightarrow> Inl (Throw e (h', i))
      | Inr h' \<Rightarrow> for_each body is h')"

text \<open>\<^verbatim>\<open>for (i = a; i < b; ++i) alloc_traits::destroy(alloc_, p + i);\<close> over the counters given.\<close>

primrec destroy_each :: "ptr \<Rightarrow> nat list \<Rightarrow> 'a heap \<Rightarrow> 'a heap option" where
  "destroy_each p [] h = Some h"
| "destroy_each p (i # is) h =
     (case destroy_at (ptr_add p (int i)) h of
        None \<Rightarrow> None
      | Some h' \<Rightarrow> destroy_each p is h')"

section \<open>The container\<close>

record vector =
  arr :: ptr
  sz :: size_type
  cap :: size_type

type_synonym 'a state = "'a heap \<times> vector"

definition vector_default :: vector where
  "vector_default = \<lparr>arr = nullptr, sz = 0, cap = 0\<rparr>"

definition begin_v :: "vector \<Rightarrow> ptr" where
  "begin_v v = arr v"

definition end_v :: "vector \<Rightarrow> ptr" where
  "end_v v = ptr_add (arr v) (uint (sz v))"

definition size_v :: "vector \<Rightarrow> size_type" where
  "size_v v = sz v"

definition capacity :: "vector \<Rightarrow> size_type" where
  "capacity v = cap v"

definition empty_v :: "vector \<Rightarrow> bool" where
  "empty_v v = (if arr v = nullptr then True else False)"

text \<open>\<^verbatim>\<open>operator[]\<close> reads the slot at the index without any check.\<close>

definition subscript :: "'a heap \<Rightarrow> vector \<Rightarrow> size_type \<Rightarrow> 'a slot option" where
  "subscript h v index = peek h (ptr_add (arr v) (uint index))"

definition clear :: "'a state \<Rightarrow> 'a state option" where
  "clear s =
     (case s of (h, v) \<Rightarrow>
        (case destroy_each (arr v) [0..<unat (sz v)] h of
           None \<Rightarrow> None
         | Some h' \<Rightarrow> Some (h', v\<lparr>sz := 0\<rparr>)))"

text \<open>
  The handler shared by the reallocating operations: destroy what was constructed in the
  new block so far, release the new block.
\<close>

definition rollback :: "ptr \<Rightarrow> nat \<Rightarrow> nat \<Rightarrow> 'a heap \<Rightarrow> 'a heap option" where
  "rollback newarr index newcap h =
     (case destroy_each newarr [0..<index] h of
        None \<Rightarrow> None
      | Some h' \<Rightarrow> deallocate newarr newcap h')"

text \<open>Destroy the elements of the old block and release it.\<close>

definition release :: "vector \<Rightarrow> 'a heap \<Rightarrow> 'a heap option" where
  "release v h =
     (case destroy_each (arr v) [0..<unat (sz v)] h of
        None \<Rightarrow> None
      | Some h' \<Rightarrow> deallocate (arr v) (unat (cap v)) h')"

definition reserve :: "'a env \<Rightarrow> size_type \<Rightarrow> 'a state \<Rightarrow> 'a state error + 'a state" where
  "reserve env newcap s =
     (case s of (h, v) \<Rightarrow>
        (case allocate env (unat newcap) h of
           None \<Rightarrow> Inl (Throw BadAlloc (h, v))
         | Some (newarr, h0) \<Rightarrow>
             (case for_each (\<lambda>index. construct_from env (ptr_add newarr (int index))
                                        (ptr_add (arr v) (int index)))
                     [0..<unat (sz v)] h0 of
                Inl UB \<Rightarrow> Inl UB
              | Inl (Throw e (h1, index)) \<Rightarrow>
                  (case rollback newarr index (unat newcap) h1 of
                     None \<Rightarrow> Inl UB
                   | Some h2 \<Rightarrow> Inl (Throw e (h2, v)))
              | Inr h1 \<Rightarrow>
                  (case release v h1 of
                     None \<Rightarrow> Inl UB
                   | Some h2 \<Rightarrow> Inr (h2, v\<lparr>arr := newarr, cap := newcap\<rparr>)))))"

definition shrink_to_fit :: "'a env \<Rightarrow> 'a state \<Rightarrow> 'a state error + 'a state" where
  "shrink_to_fit env s =
     (case s of (h, v) \<Rightarrow>
        if sz v < cap v then
          (case allocate env (unat (sz v)) h of
             None \<Rightarrow> Inl (Throw BadAlloc (h, v))
           | Some (newarr, h0) \<Rightarrow>
               (case for_each (\<lambda>index. construct_from env (ptr_add newarr (int index))
                                          (ptr_add (arr v) (int index)))
                       [0..<unat (sz v)] h0 of
                  Inl UB \<Rightarrow> Inl UB
                | Inl (Throw e (h1, index)) \<Rightarrow>
                    (case rollback newarr index (unat (sz v)) h1 of
                       None \<Rightarrow> Inl UB
                     | Some h2 \<Rightarrow> Inl (Throw e (h2, v)))
                | Inr h1 \<Rightarrow>
                    (case release v h1 of
                       None \<Rightarrow> Inl UB
                     | Some h2 \<Rightarrow> Inr (h2, v\<lparr>arr := newarr, cap := sz v\<rparr>))))
        else Inr (h, v))"

text \<open>
  \<^verbatim>\<open>emplace_back\<close>. In the growing branch the new element is constructed first, at index
  \<^verbatim>\<open>sz_\<close> of the new block; the handler destroys the elements transferred so far (not the
  new element) and releases the new block.
\<close>

definition emplace_back :: "'a env \<Rightarrow> 'a \<Rightarrow> 'a state \<Rightarrow> 'a state error + 'a state" where
  "emplace_back env x s =
     (case s of (h, v) \<Rightarrow>
        if sz v = cap v then
          (let newcap = (if cap v > 0 then cap v * 2 else 1) in
           case allocate env (unat newcap) h of
             None \<Rightarrow> Inl (Throw BadAlloc (h, v))
           | Some (newarr, h0) \<Rightarrow>
               (case (case construct_at env (ptr_add newarr (uint (sz v))) x h0 of
                        Inl UB \<Rightarrow> Inl UB
                      | Inl (Throw e h1) \<Rightarrow> Inl (Throw e (h1, 0))
                      | Inr h1 \<Rightarrow>
                          for_each (\<lambda>index. construct_from env (ptr_add newarr (int index))
                                               (ptr_add (arr v) (int index)))
                            [0..<unat (sz v)] h1) of
                  Inl UB \<Rightarrow> Inl UB
                | Inl (Throw e (h2, index)) \<Rightarrow>
                    (case rollback newarr index (unat newcap) h2 of
                       None \<Rightarrow> Inl UB
                     | Some h3 \<Rightarrow> Inl (Throw e (h3, v)))
                | Inr h2 \<Rightarrow>
                    (case release v h2 of
                       None \<Rightarrow> Inl UB
                     | Some h3 \<Rightarrow> Inr (h3, v\<lparr>arr := newarr, cap := newcap, sz := sz v + 1\<rparr>))))
        else
          (case construct_at env (ptr_add (arr v) (uint (sz v))) x h of
             Inl UB \<Rightarrow> Inl UB
           | Inl (Throw e h1) \<Rightarrow> Inl (Throw e (h1, v))
           | Inr h1 \<Rightarrow> Inr (h1, v\<lparr>sz := sz v + 1\<rparr>)))"

definition push_back :: "'a env \<Rightarrow> 'a \<Rightarrow> 'a state \<Rightarrow> 'a state error + 'a state" where
  "push_back env x s = emplace_back env x s"

text \<open>
  The part shared by the three multi-element forms of \<^verbatim>\<open>insert\<close> (their text in the source
  is the same): grow if needed, move the tail \<open>count\<close> slots to the right from the back,
  construct the new elements into the gap, add \<open>count\<close> to the size. \<open>fill i p\<close> constructs
  the \<open>i\<close>-th new element at \<open>p\<close>. The handler destroys the slots from \<open>index + count\<close> up to
  the old size and rethrows.
\<close>

definition insert_tail ::
  "'a env \<Rightarrow> size_type \<Rightarrow> size_type \<Rightarrow> (nat \<Rightarrow> ptr \<Rightarrow> 'a heap \<Rightarrow> 'a heap error + 'a heap)
     \<Rightarrow> 'a state \<Rightarrow> 'a state error + (ptr \<times> 'a state)" where
  "insert_tail env index count fill s =
     (case s of (h, v) \<Rightarrow>
        (case (if sz v + count > cap v
               then reserve env (max (cap v * 2) (sz v + count)) (h, v)
               else Inr (h, v)) of
           Inl e \<Rightarrow> Inl e
         | Inr (h1, v1) \<Rightarrow>
             (case (case for_each
                           (\<lambda>i h. case construct_from env
                                          (ptr_add (arr v1) (int i + uint count - 1))
                                          (ptr_add (arr v1) (int i - 1)) h of
                                     Inl e \<Rightarrow> Inl e
                                   | Inr h' \<Rightarrow>
                                       (case destroy_at (ptr_add (arr v1) (int i - 1)) h' of
                                          None \<Rightarrow> Inl UB
                                        | Some h'' \<Rightarrow> Inr h''))
                           (rev [Suc (unat index)..<Suc (unat (sz v1))]) h1 of
                      Inl e \<Rightarrow> Inl e
                    | Inr h2 \<Rightarrow>
                        for_each (\<lambda>i. fill i (ptr_add (arr v1) (uint index + int i)))
                          [0..<unat count] h2) of
                Inl UB \<Rightarrow> Inl UB
              | Inl (Throw e (h3, i)) \<Rightarrow>
                  (case destroy_each (arr v1) [unat (index + count)..<unat (sz v1)] h3 of
                     None \<Rightarrow> Inl UB
                   | Some h4 \<Rightarrow> Inl (Throw e (h4, v1)))
              | Inr h3 \<Rightarrow>
                  Inr (ptr_add (begin_v v1) (sint index), h3, v1\<lparr>sz := sz v1 + count\<rparr>))))"

text \<open>
  \<^verbatim>\<open>insert(const_iterator pos, size_type count, const T& value)\<close>. The offset of \<open>pos\<close> is
  taken first, a zero \<open>count\<close> returns next, and only then is \<open>pos\<close> compared with
  \<^verbatim>\<open>begin()\<close> and \<^verbatim>\<open>end()\<close>.
\<close>

definition insert_count ::
  "'a env \<Rightarrow> ptr \<Rightarrow> size_type \<Rightarrow> 'a \<Rightarrow> 'a state \<Rightarrow> 'a state error + (ptr \<times> 'a state)" where
  "insert_count env pos count x s =
     (case s of (h, v) \<Rightarrow>
        (case ptr_diff pos (begin_v v) of
           None \<Rightarrow> Inl UB
         | Some d \<Rightarrow>
             (let index = (word_of_int d :: size_type) in
              if count = 0 then Inr (ptr_add (begin_v v) (sint index), h, v)
              else if ptr_less pos (begin_v v) \<or> ptr_less (end_v v) pos
              then Inl (Throw OutOfRange (h, v))
              else insert_tail env index count (\<lambda>i p. construct_at env p x) (h, v))))"

text \<open>\<^verbatim>\<open>insert(const_iterator pos, std::initializer_list<T> ilist)\<close>.\<close>

definition insert_ilist ::
  "'a env \<Rightarrow> ptr \<Rightarrow> 'a list \<Rightarrow> 'a state \<Rightarrow> 'a state error + (ptr \<times> 'a state)" where
  "insert_ilist env pos ilist s =
     (case s of (h, v) \<Rightarrow>
        if ptr_less pos (begin_v v) \<or> ptr_less (end_v v) pos
        then Inl (Throw OutOfRange (h, v))
        else
          (case ptr_diff pos (begin_v v) of
             None \<Rightarrow> Inl UB
           | Some d \<Rightarrow>
               (let count = (of_nat (length ilist) :: size_type);
                    index = (word_of_int d :: size_type) in
                if count = 0 then Inr (ptr_add (begin_v v) (sint index), h, v)
                else insert_tail env index count (\<lambda>i p. construct_at env p (ilist ! i)) (h, v))))"

text \<open>
  The constructor from a range of pointers, \<^verbatim>\<open>vector(InputIt first, InputIt last)\<close>. Its loop
  runs while \<^verbatim>\<open>first != last\<close>; when \<open>last\<close> cannot be reached from \<open>first\<close> the range
  is not a range and the behaviour is undefined.
\<close>

definition vector_range :: "'a env \<Rightarrow> ptr \<Rightarrow> ptr \<Rightarrow> 'a heap \<Rightarrow> 'a heap error + 'a state" where
  "vector_range env first last_it h =
     (case ptr_diff last_it first of
        None \<Rightarrow> Inl UB
      | Some d \<Rightarrow>
          (let count = (word_of_int d :: size_type) in
           case allocate env (unat count) h of
             None \<Rightarrow> Inl (Throw BadAlloc h)
           | Some (a, h0) \<Rightarrow>
               if d < 0 then Inl UB
               else
                 (case for_each (\<lambda>index. construct_copy env (ptr_add a (int index))
                                            (ptr_add first (int index)))
                         [0..<nat d] h0 of
                    Inl UB \<Rightarrow> Inl UB
                  | Inl (Throw e (h1, index)) \<Rightarrow>
                      (case rollback a index (unat count) h1 of
                         None \<Rightarrow> Inl UB
                       | Some h2 \<Rightarrow> Inl (Throw e h2))
                  | Inr h1 \<Rightarrow> Inr (h1, \<lparr>arr = a, sz = of_nat (nat d), cap = count\<rparr>))))"

text \<open>The destructor: \<^verbatim>\<open>clear()\<close>, then the block is released unless the pointer is null.\<close>

definition destructor :: "'a state \<Rightarrow> 'a heap option" where
  "destructor s =
     (case clear s of
        None \<Rightarrow> None
      | Some (h, v) \<Rightarrow>
          if arr v \<noteq> nullptr then deallocate (arr v) (unat (cap v)) h else Some h)"

text \<open>
  The test of the random-access overload of \<^verbatim>\<open>insert_dispatch\<close> for a source range inside
  the container's own elements.
\<close>

definition aliases :: "vector \<Rightarrow> ptr \<Rightarrow> ptr \<Rightarrow> bool" where
  "aliases v first last_it =
     (ptr_le (begin_v v) first \<and> ptr_less first (end_v v)
      \<and> ptr_less (begin_v v) last_it \<and> ptr_le last_it (end_v v))"

text \<open>
  \<^verbatim>\<open>insert_dispatch(pos, first, last, int)\<close>, the overload for random-access iterators. When
  the source range aliases the container it is copied into the local vector \<open>temp\<close> and
  the elements are taken from there; \<open>temp\<close> is destroyed when the function is left, by
  return or by exception.
\<close>

definition insert_dispatch ::
  "'a env \<Rightarrow> ptr \<Rightarrow> ptr \<Rightarrow> ptr \<Rightarrow> 'a state \<Rightarrow> 'a state error + (ptr \<times> 'a state)" where
  "insert_dispatch env pos first last_it s =
     (case s of (h, v) \<Rightarrow>
        if ptr_less pos (begin_v v) \<or> ptr_less (end_v v) pos
        then Inl (Throw OutOfRange (h, v))
        else
          (case (ptr_diff last_it first, ptr_diff pos (begin_v v)) of
             (Some dc, Some d) \<Rightarrow>
               (let count = (word_of_int dc :: size_type);
                    index = (word_of_int d :: size_type) in
                if count = 0 then Inr (ptr_add (begin_v v) (sint index), h, v)
                else if aliases v first last_it then
                  (case vector_range env first last_it h of
                     Inl UB \<Rightarrow> Inl UB
                   | Inl (Throw e h0) \<Rightarrow> Inl (Throw e (h0, v))
                   | Inr (h0, temp) \<Rightarrow>
                       (case insert_tail env index count
                               (\<lambda>i p. construct_copy env p (ptr_add (begin_v temp) (int i)))
                               (h0, v) of
                          Inl UB \<Rightarrow> Inl UB
                        | Inl (Throw e (h1, v1)) \<Rightarrow>
                            (case destructor (h1, temp) of
                               None \<Rightarrow> Inl UB
                             | Some h2 \<Rightarrow> Inl (Throw e (h2, v1)))
                        | Inr (it, h1, v1) \<Rightarrow>
                            (case destructor (h1, temp) of
                               None \<Rightarrow> Inl UB
                             | Some h2 \<Rightarrow> Inr (it, h2, v1))))
                else insert_tail env index count
                       (\<lambda>i p. construct_copy env p (ptr_add first (int i))) (h, v))
           | _ \<Rightarrow> Inl UB))"

text \<open>
  \<^verbatim>\<open>insert_impl\<close>, behind both single-element forms of \<^verbatim>\<open>insert\<close>: at the end it is
  \<^verbatim>\<open>push_back\<close>; elsewhere it moves the tail one slot to the right.
\<close>

definition insert_impl ::
  "'a env \<Rightarrow> ptr \<Rightarrow> 'a \<Rightarrow> 'a state \<Rightarrow> 'a state error + (ptr \<times> 'a state)" where
  "insert_impl env pos x s =
     (case s of (h, v) \<Rightarrow>
        if ptr_less pos (begin_v v) \<or> ptr_less (end_v v) pos
        then Inl (Throw OutOfRange (h, v))
        else if pos = end_v v then
          (case push_back env x (h, v) of
             Inl e \<Rightarrow> Inl e
           | Inr (h1, v1) \<Rightarrow> Inr (ptr_add (end_v v1) (- 1), h1, v1))
        else
          (case ptr_diff pos (begin_v v) of
             None \<Rightarrow> Inl UB
           | Some d \<Rightarrow>
               (let index = (word_of_int d :: size_type) in
                case (if sz v = cap v
                      then reserve env (if cap v > 0 then cap v * 2 else 1) (h, v)
                      else Inr (h, v)) of
                  Inl e \<Rightarrow> Inl e
                | Inr (h1, v1) \<Rightarrow>
                    (case (case for_each
                                  (\<lambda>i h. case construct_from env (ptr_add (arr v1) (int i))
                                                 (ptr_add (arr v1) (int i - 1)) h of
                                            Inl e \<Rightarrow> Inl e
                                          | Inr h' \<Rightarrow>
                                              (case destroy_at (ptr_add (arr v1) (int i - 1)) h' of
                                                 None \<Rightarrow> Inl UB
                                               | Some h'' \<Rightarrow> Inr h''))
                                  (rev [Suc (unat index)..<Suc (unat (sz v1))]) h1 of
                             Inl e \<Rightarrow> Inl e
                           | Inr h2 \<Rightarrow>
                               (case construct_at env (ptr_add (arr v1) (uint index)) x h2 of
                                  Inl UB \<Rightarrow> Inl UB
                                | Inl (Throw e h3) \<Rightarrow> Inl (Throw e (h3, unat index))
                                | Inr h3 \<Rightarrow> Inr h3)) of
                       Inl UB \<Rightarrow> Inl UB
                     | Inl (Throw e (h3, i)) \<Rightarrow>
                         (case destroy_each (arr v1) [unat (index + 1)..<unat (sz v1)] h3 of
                            None \<Rightarrow> Inl UB
                          | Some h4 \<Rightarrow> Inl (Throw e (h4, v1)))
                     | Inr h3 \<Rightarrow>
                         Inr (ptr_add (begin_v v1) (sint index), h3, v1\<lparr>sz := sz v1 + 1\<rparr>)))))"

text \<open>
  \<^verbatim>\<open>erase(iterator pos)\<close> (the \<^verbatim>\<open>const_iterator\<close> overload has the same body). The bound of
  the loop is \<^verbatim>\<open>sz_ - 1\<close> in \<^verbatim>\<open>size_t\<close>. There is no handler: a throw leaves the fields as
  they are.
\<close>

definition erase :: "'a env \<Rightarrow> ptr \<Rightarrow> 'a state \<Rightarrow> 'a state error + (ptr \<times> 'a state)" where
  "erase env pos s =
     (case s of (h, v) \<Rightarrow>
        if ptr_less pos (begin_v v) \<or> ptr_less (end_v v) pos
        then Inl (Throw OutOfRange (h, v))
        else
          (case ptr_diff pos (begin_v v) of
             None \<Rightarrow> Inl UB
           | Some d \<Rightarrow>
               (let index = (word_of_int d :: size_type) in
                case destroy_at (ptr_add (arr v) (uint index)) h of
                  None \<Rightarrow> Inl UB
                | Some h1 \<Rightarrow>
                    (case for_each
                            (\<lambda>i h. case construct_from env (ptr_add (arr v) (int i))
                                           (ptr_add (arr v) (int i + 1)) h of
                                      Inl e \<Rightarrow> Inl e
                                    | Inr h' \<Rightarrow>
                                        (case destroy_at (ptr_add (arr v) (int i + 1)) h' of
                                           None \<Rightarrow> Inl UB
                                         | Some h'' \<Rightarrow> Inr h''))
                            [unat index..<unat (sz v - 1)] h1 of
                       Inl UB \<Rightarrow> Inl UB
                     | Inl (Throw e (h2, i)) \<Rightarrow> Inl (Throw e (h2, v))
                     | Inr h2 \<Rightarrow>
                         Inr (ptr_add (begin_v v) (sint index), h2, v\<lparr>sz := sz v - 1\<rparr>)))))"

text \<open>
  \<^verbatim>\<open>erase(iterator first, iterator last)\<close> (again the \<^verbatim>\<open>const_iterator\<close> overload has the
  same body). The second loop advances \<^verbatim>\<open>index_first\<close> together with \<open>i\<close>, and the
  iterator returned is \<^verbatim>\<open>begin() + index_first\<close> after the loop.
\<close>

definition erase_range ::
  "'a env \<Rightarrow> ptr \<Rightarrow> ptr \<Rightarrow> 'a state \<Rightarrow> 'a state error + (ptr \<times> 'a state)" where
  "erase_range env first last_it s =
     (case s of (h, v) \<Rightarrow>
        if ptr_less first (begin_v v) \<or> ptr_less (end_v v) last_it \<or> ptr_less (end_v v) first
        then Inl (Throw OutOfRange (h, v))
        else
          (case (ptr_diff first (begin_v v), ptr_diff last_it (begin_v v)) of
             (Some df, Some dl) \<Rightarrow>
               (let index_first = (word_of_int df :: size_type);
                    index_last = (word_of_int dl :: size_type);
                    count = index_last - index_first in
                case destroy_each (arr v) [unat index_first..<unat index_last] h of
                  None \<Rightarrow> Inl UB
                | Some h1 \<Rightarrow>
                    (case for_each
                            (\<lambda>i h. case construct_from env
                                           (ptr_add (arr v)
                                              (int (unat index_first + (i - unat index_last))))
                                           (ptr_add (arr v) (int i)) h of
                                      Inl e \<Rightarrow> Inl e
                                    | Inr h' \<Rightarrow>
                                        (case destroy_at (ptr_add (arr v) (int i)) h' of
                                           None \<Rightarrow> Inl UB
                                         | Some h'' \<Rightarrow> Inr h''))
                            [unat index_last..<unat (sz v)] h1 of
                       Inl UB \<Rightarrow> Inl UB
                     | Inl (Throw e (h2, i)) \<Rightarrow> Inl (Throw e (h2, v))
                     | Inr h2 \<Rightarrow>
                         Inr (ptr_add (begin_v v)
                                (sint (index_first + of_nat (unat (sz v) - unat index_last))),
                              h2, v\<lparr>sz := sz v - count\<rparr>)))
           | _ \<Rightarrow> Inl UB))"

text \<open>
  Move assignment between two distinct containers: the target's block is released
  without destroying its elements, the three fields are taken from \<open>other\<close>, and of the
  fields of \<open>other\<close> the pointer and the size are reset.
\<close>

definition move_assign :: "vector \<Rightarrow> vector \<Rightarrow> 'a heap \<Rightarrow> ('a heap \<times> vector \<times> vector) option" where
  "move_assign this other h =
     (case (if arr this \<noteq> nullptr then deallocate (arr this) (unat (cap this)) h else Some h) of
        None \<Rightarrow> None
      | Some h' \<Rightarrow>
          Some (h', this\<lparr>arr := arr other, sz := sz other, cap := cap other\<rparr>,
                other\<lparr>arr := nullptr, sz := 0\<rparr>))"

section \<open>Comparison\<close>

text \<open>
  The elements between \<^verbatim>\<open>begin()\<close> and \<^verbatim>\<open>end()\<close>, when each of these slots holds a live
  object; reading anything else is undefined.
\<close>

definition elements :: "'a heap \<Rightarrow> vector \<Rightarrow> 'a list option" where
  "elements h v =
     those (map (\<lambda>i. case peek h (ptr_add (arr v) (int i)) of
                       Some (Live x) \<Rightarrow> Some x
                     | Some Raw \<Rightarrow> None
                     | None \<Rightarrow> None)
                [0..<unat (sz v)])"

text \<open>
  \<^verbatim>\<open>std::equal(first1, last1, first2)\<close> and \<^verbatim>\<open>std::lexicographical_compare\<close> of the standard
  library, on the sequences the iterators run over. The three-iterator \<^verbatim>\<open>std::equal\<close> reads
  past the second sequence when that one is shorter.
\<close>

fun std_equal :: "('a \<Rightarrow> 'a \<Rightarrow> bool) \<Rightarrow> 'a list \<Rightarrow> 'a list \<Rightarrow> bool option" where
  "std_equal eq [] ys = Some True"
| "std_equal eq (x # xs) [] = None"
| "std_equal eq (x # xs) (y # ys) = (if eq x y then std_equal eq xs ys else Some False)"

fun lexicographical_compare :: "('a \<Rightarrow> 'a \<Rightarrow> bool) \<Rightarrow> 'a list \<Rightarrow> 'a list \<Rightarrow> bool" where
  "lexicographical_compare lt [] [] = False"
| "lexicographical_compare lt [] (y # ys) = True"
| "lexicographical_compare lt (x # xs) [] = False"
| "lexicographical_compare lt (x # xs) (y # ys) =
     (if lt x y then True
      else if lt y x then False
      else lexicographical_compare lt xs ys)"

definition op_eq :: "('a \<Rightarrow> 'a \<Rightarrow> bool) \<Rightarrow> 'a heap \<Rightarrow> vector \<Rightarrow> vector \<Rightarrow> bool option" where
  "op_eq eq h lhs rhs =
     (if size_v lhs = size_v rhs
      then (case (elements h lhs, elements h rhs) of
              (Some xs, Some ys) \<Rightarrow> std_equal eq xs ys
            | _ \<Rightarrow> None)
      else Some False)"

definition op_ne :: "('a \<Rightarrow> 'a \<Rightarrow> bool) \<Rightarrow> 'a heap \<Rightarrow> vector \<Rightarrow> vector \<Rightarrow> bool option" where
  "op_ne eq h lhs rhs = map_option Not (op_eq eq h lhs rhs)"

definition op_less :: "('a \<Rightarrow> 'a \<Rightarrow> bool) \<Rightarrow> 'a heap \<Rightarrow> vector \<Rightarrow> vector \<Rightarrow> bool option" where
  "op_less lt h lhs rhs =
     (if size_v lhs \<noteq> size_v rhs then Some (size_v lhs < size_v rhs)
      else (case (elements h lhs, elements h rhs) of
              (Some xs, Some ys) \<Rightarrow> Some (lexicographical_compare lt xs ys)
            | _ \<Rightarrow> None))"

definition op_greater :: "('a \<Rightarrow> 'a \<Rightarrow> bool) \<Rightarrow> 'a heap \<Rightarrow> vector \<Rightarrow> vector \<Rightarrow> bool option" where
  "op_greater lt h lhs rhs = op_less lt h rhs lhs"

definition op_le :: "('a \<Rightarrow> 'a \<Rightarrow> bool) \<Rightarrow> 'a heap \<Rightarrow> vector \<Rightarrow> vector \<Rightarrow> bool option" where
  "op_le lt h lhs rhs = map_option Not (op_less lt h rhs lhs)"

definition op_ge :: "('a \<Rightarrow> 'a \<Rightarrow> bool) \<Rightarrow> 'a heap \<Rightarrow> vector \<Rightarrow> vector \<Rightarrow> bool option" where
  "op_ge lt h lhs rhs = map_option Not (op_less lt h lhs rhs)"

section \<open>Well-formed states\<close>

text \<open>
  The data model: \<open>next_id\<close> is positive and every block identifier in use is positive
  and below it; a
  container with a null pointer has no capacity and no elements; otherwise its pointer
  is the start of a block of \<open>cap\<close> slots of which the first \<open>sz\<close> hold the elements
  \<open>xs\<close>, in order, and the others are raw.
\<close>

definition heap_ok :: "'a heap \<Rightarrow> bool" where
  "heap_ok h = (0 < next_id h \<and> list_all (\<lambda>b. 0 < b \<and> b < next_id h) (map fst (blocks h)))"

definition owns :: "'a heap \<Rightarrow> vector \<Rightarrow> 'a list \<Rightarrow> bool" where
  "owns h v xs =
     (length xs = unat (sz v) \<and> unat (sz v) \<le> unat (cap v) \<and> snd (arr v) = 0 \<and>
      (if arr v = nullptr then cap v = 0
       else lookup h (fst (arr v)) =
              Some (map Live xs @ replicate (unat (cap v) - unat (sz v)) Raw)))"

section \<open>Concrete states\<close>

text \<open>
  An element type and allocator that never fail, and the states used to run the
  operations on concrete inputs: the container \<open>{1, 2, 3}\<close> with capacity \<open>4\<close> (what
  three calls of \<^verbatim>\<open>push_back\<close> leave behind) and the empty heap.
\<close>

definition int_env :: "int env" where
  "int_env = \<lparr>nothrow_move = True, copyable = True, moved_from = (\<lambda>x. x),
               throws = (\<lambda>k. False), can_alloc = (\<lambda>n. True)\<rparr>"

definition heap_123 :: "int heap" where
  "heap_123 = \<lparr>blocks = [(1, [Live 1, Live 2, Live 3, Raw])], next_id = 2, ctor_calls = 0\<rparr>"

definition vec_123 :: vector where
  "vec_123 = \<lparr>arr = (1, 0), sz = 3, cap = 4\<rparr>"

definition heap_empty :: "int heap" where
  "heap_empty = \<lparr>blocks = [], next_id = 1, ctor_calls = 0\<rparr>"

text \<open>
  Two containers in one heap, \<open>{1, 2, 3}\<close> and \<open>{7}\<close>, for move assignment, and the pair
  \<open>{9, 9}\<close>, \<open>{1, 2, 3}\<close> for the comparisons.
\<close>

definition heap_two :: "int heap" where
  "heap_two = \<lparr>blocks = [(1, [Live 1, Live 2, Live 3, Raw]), (2, [Live 7])],
               next_id = 3, ctor_calls = 0\<rparr>"

definition vec_7 :: vector where
  "vec_7 = \<lparr>arr = (2, 0), sz = 1, cap = 1\<rparr>"

definition heap_cmp :: "int heap" where
  "heap_cmp = \<lparr>blocks = [(1, [Live 9, Live 9]), (2, [Live 1, Live 2, Live 3])],
               next_id = 3, ctor_calls = 0\<rparr>"

definition vec_99 :: vector where
  "vec_99 = \<lparr>arr = (1, 0), sz = 2, cap = 2\<rparr>"

definition vec_123b :: vector where
  "vec_123b = \<lparr>arr = (2, 0), sz = 3, cap = 3\<rparr>"

text \<open>
  Element types whose second construction fails: one that is copied by
  \<^verbatim>\<open>std::move_if_noexcept\<close>, and one without a copy constructor, whose move constructor
  may throw and leaves \<open>0\<close> in its source. The container \<open>{5, 6}\<close> is full.
\<close>

definition copy_env :: "int env" where
  "copy_env = \<lparr>nothrow_move = False, copyable = True, moved_from = (\<lambda>x. x),
                throws = (\<lambda>k. k = 1), can_alloc = (\<lambda>n. True)\<rparr>"

definition move_only_env :: "int env" where
  "move_only_env = \<lparr>nothrow_move = False, copyable = False, moved_from = (\<lambda>x. 0),
                     throws = (\<lambda>k. k = 1), can_alloc = (\<lambda>n. True)\<rparr>"

definition heap_56 :: "int heap" where
  "heap_56 = \<lparr>blocks = [(1, [Live 5, Live 6])], next_id = 2, ctor_calls = 0\<rparr>"

definition vec_56 :: vector where
  "vec_56 = \<lparr>arr = (1, 0), sz = 2, cap = 2\<rparr>"

text \<open>
  Two states over the block of \<open>{1, 2, 3}\<close> in which the size field is smaller than the
  number of objects in the block, so that the slot at index \<^verbatim>\<open>size()\<close> holds an object:
  they show what \<^verbatim>\<open>erase(end())\<close> does after its first \<^verbatim>\<open>destroy\<close>.
\<close>

definition vec_2_of_4 :: vector where
  "vec_2_of_4 = \<lparr>arr = (1, 0), sz = 2, cap = 4\<rparr>"

definition vec_0_of_4 :: vector where
  "vec_0_of_4 = \<lparr>arr = (1, 0), sz = 0, cap = 4\<rparr>"

section \<open>Blocks as tables\<close>

text \<open>
  In the proofs a block of \<open>n\<close> slots is written as the table of a function on the
  indices below \<open>n\<close>, so that writing a slot is a function update and two blocks are
  compared slot by slot.
\<close>

definition tab :: "nat \<Rightarrow> (nat \<Rightarrow> 'a) \<Rightarrow> 'a list" where
  "tab n f = map f [0..<n]"

text \<open>
  The frame of an operation that writes to one block only: every other block is as it
  was.
\<close>

definition same_except :: "nat \<Rightarrow> 'a heap \<Rightarrow> 'a heap \<Rightarrow> bool" where
  "same_except b h h' = (\<forall>c. c \<noteq> b \<longrightarrow> lookup h' c = lookup h c)"

text \<open>What \<^verbatim>\<open>std::move_if_noexcept\<close> leaves in a source slot: the moved-from value, or the value itself after a copy.\<close>

definition residue :: "'a env \<Rightarrow> 'a \<Rightarrow> 'a" where
  "residue env y = (if uses_move env then moved_from env y else y)"

text \<open>A sequence of \<^verbatim>\<open>push_back\<close> calls, given by the values pushed; it ends at the first call that fails.\<close>

fun push_all :: "'a env \<Rightarrow> 'a list \<Rightarrow> 'a state \<Rightarrow> 'a state error + 'a state" where
  "push_all env [] s = Inr s"
| "push_all env (x # xs) s =
     (case push_back env x s of
        Inl e \<Rightarrow> Inl e
      | Inr s' \<Rightarrow> push_all env xs s')"

section \<open>Basic facts\<close>

lemma lookup_null: "heap_ok h \<Longrightarrow> lookup h 0 = None"
  by (auto simp: heap_ok_def lookup_def list_all_iff map_of_eq_None_iff)

lemma ptr_diff_end_begin: "ptr_diff (end_v v) (begin_v v) = Some (uint (sz v))"
  by (simp add: ptr_diff_def end_v_def begin_v_def ptr_add_def)

lemma end_in_window: "\<not> ptr_less (end_v v) (begin_v v) \<and> \<not> ptr_less (end_v v) (end_v v)"
  by (simp add: ptr_less_def end_v_def begin_v_def ptr_add_def)

lemma peek_end_not_live:
  assumes "heap_ok h" "owns h v xs"
  shows "peek h (end_v v) = None \<or> peek h (end_v v) = Some Raw"
proof (cases "arr v = nullptr")
  case True
  with assms show ?thesis
    by (simp add: peek_def end_v_def ptr_add_def nullptr_def lookup_null)
next
  case False
  with assms have blk:
    "lookup h (fst (arr v)) = Some (map Live xs @ replicate (unat (cap v) - unat (sz v)) Raw)"
    and len: "length xs = unat (sz v)" and off: "snd (arr v) = 0"
    by (simp_all add: owns_def)
  show ?thesis
    using blk len off
    by (simp add: peek_def end_v_def ptr_add_def nth_append)
qed

lemma lookup_ctor_calls_update [simp]: "lookup (h\<lparr>ctor_calls := c\<rparr>) = lookup h"
  by (simp add: lookup_def fun_eq_iff)

lemma lookup_poke:
  "lookup (poke h p s) =
     (case lookup h (fst p) of
        None \<Rightarrow> lookup h
      | Some blk \<Rightarrow> (lookup h)(fst p \<mapsto> blk[nat (snd p) := s]))"
  by (auto simp: poke_def lookup_def update_conv' split: option.splits)

lemma next_id_poke [simp]: "next_id (poke h p s) = next_id h"
  by (simp add: poke_def split: option.splits)

lemma ctor_calls_poke [simp]: "ctor_calls (poke h p s) = ctor_calls h"
  by (simp add: poke_def split: option.splits)

lemma heap_ok_iff:
  "heap_ok h \<longleftrightarrow>
     0 < next_id h \<and> (\<forall>b blk. lookup h b = Some blk \<longrightarrow> 0 < b \<and> b < next_id h)"
proof -
  have "lookup h = map_of (blocks h)"
    by (simp add: fun_eq_iff lookup_def)
  then have "fst ` set (blocks h) = dom (lookup h)"
    by (simp add: dom_map_of_conv_image_fst)
  then show ?thesis
    by (auto simp: heap_ok_def list_all_iff dom_def)
qed

lemma peek_block:
  "lookup h b = Some blk \<Longrightarrow>
   peek h (b, i) = (if 0 \<le> i \<and> nat i < length blk then Some (blk ! nat i) else None)"
  by (simp add: peek_def)

lemma poke_block:
  "lookup h b = Some blk \<Longrightarrow> lookup (poke h (b, i) s) = (lookup h)(b \<mapsto> blk[nat i := s])"
  by (simp add: lookup_poke)

lemma for_each_rule:
  assumes "P 0 h"
    and "\<And>k h. k < length is \<Longrightarrow> P k h \<Longrightarrow> \<exists>h'. body (is ! k) h = Inr h' \<and> P (Suc k) h'"
  shows "\<exists>h'. for_each body is h = Inr h' \<and> P (length is) h'"
  using assms
proof (induction "is" arbitrary: P h)
  case Nil
  then show ?case by simp
next
  case (Cons i "is")
  from Cons.prems(2) [of 0 h] Cons.prems(1)
  obtain h1 where h1: "body i h = Inr h1" "P (Suc 0) h1" by auto
  have "\<exists>h'. for_each body is h1 = Inr h' \<and> P (Suc (length is)) h'"
  proof (rule Cons.IH [where P = "\<lambda>k. P (Suc k)"])
    show "P (Suc 0) h1" by (rule h1)
  next
    fix k h assume "k < length is" "P (Suc k) h"
    then show "\<exists>h'. body (is ! k) h = Inr h' \<and> P (Suc (Suc k)) h'"
      using Cons.prems(2) [of "Suc k" h] by simp
  qed
  with h1 show ?case by simp
qed

lemma destroy_each_rule:
  assumes "P 0 h"
    and "\<And>k h. k < length is \<Longrightarrow> P k h \<Longrightarrow>
           \<exists>h'. destroy_at (ptr_add p (int (is ! k))) h = Some h' \<and> P (Suc k) h'"
  shows "\<exists>h'. destroy_each p is h = Some h' \<and> P (length is) h'"
  using assms
proof (induction "is" arbitrary: P h)
  case Nil
  then show ?case by simp
next
  case (Cons i "is")
  from Cons.prems(2) [of 0 h] Cons.prems(1)
  obtain h1 where h1: "destroy_at (ptr_add p (int i)) h = Some h1" "P (Suc 0) h1" by auto
  have "\<exists>h'. destroy_each p is h1 = Some h' \<and> P (Suc (length is)) h'"
  proof (rule Cons.IH [where P = "\<lambda>k. P (Suc k)"])
    show "P (Suc 0) h1" by (rule h1)
  next
    fix k h assume "k < length is" "P (Suc k) h"
    then show "\<exists>h'. destroy_at (ptr_add p (int (is ! k))) h = Some h' \<and> P (Suc (Suc k)) h'"
      using Cons.prems(2) [of "Suc k" h] by simp
  qed
  with h1 show ?case by simp
qed

lemma length_tab [simp]: "length (tab n f) = n" by (simp add: tab_def)
lemma nth_tab [simp]: "i < n \<Longrightarrow> tab n f ! i = f i" by (simp add: tab_def)
lemma tab_update: "(tab n f)[i := s] = tab n (f(i := s))"
  by (rule nth_equalityI) (auto simp: nth_list_update)
lemma tab_eq_iff: "tab n f = tab n g \<longleftrightarrow> (\<forall>i<n. f i = g i)"
  by (auto simp: list_eq_iff_nth_eq)
lemma tab_nth: "tab (length xs) (\<lambda>i. xs ! i) = xs"
  by (simp add: tab_def map_nth)
lemma eq_tab_iff: "xs = tab n f \<longleftrightarrow> length xs = n \<and> (\<forall>i<n. xs ! i = f i)"
  by (auto simp: list_eq_iff_nth_eq)

lemma destroy_range_live:
  assumes blk: "lookup h b = Some blk" and n: "n \<le> length blk"
    and live: "\<And>i. a \<le> i \<Longrightarrow> i < n \<Longrightarrow> \<exists>x. blk ! i = Live x"
  shows "\<exists>h'. destroy_each (b, 0) [a..<n] h = Some h'
           \<and> lookup h' = (lookup h)(b \<mapsto> tab (length blk) (\<lambda>i. if a \<le> i \<and> i < n then Raw else blk ! i))
           \<and> next_id h' = next_id h \<and> ctor_calls h' = ctor_calls h"
proof -
  let ?P = "\<lambda>k h'. lookup h' = (lookup h)(b \<mapsto> tab (length blk) (\<lambda>i. if a \<le> i \<and> i < a + k then Raw else blk ! i))
           \<and> next_id h' = next_id h \<and> ctor_calls h' = ctor_calls h"
  have "\<exists>h'. destroy_each (b, 0) [a..<n] h = Some h' \<and> ?P (length [a..<n]) h'"
  proof (rule destroy_each_rule [where P = ?P])
    show "?P 0 h" using blk by (auto simp: fun_eq_iff eq_tab_iff)
  next
    fix k h1 assume k: "k < length [a..<n]" and P: "?P k h1"
    from k have ak: "a + k < n" by simp
    from live [of "a + k"] ak obtain x where x: "blk ! (a + k) = Live x" by auto
    have l1: "lookup h1 b = Some (tab (length blk) (\<lambda>i. if a \<le> i \<and> i < a + k then Raw else blk ! i))"
      using P by simp
    have pk: "peek h1 (b, int (a + k)) = Some (Live x)"
      using ak n x by (simp add: peek_block [OF l1] nat_int_add)
    have idx: "[a..<n] ! k = a + k" using k by simp
    show "\<exists>h'. destroy_at (ptr_add (b, 0) (int ([a..<n] ! k))) h1 = Some h' \<and> ?P (Suc k) h'"
      using pk P ak n
      by (auto simp: idx ptr_add_def destroy_at_def poke_block [OF l1] tab_update tab_eq_iff
            fun_eq_iff nat_int_add)
  qed
  then obtain h' where h': "destroy_each (b, 0) [a..<n] h = Some h'" "?P (length [a..<n]) h'" by blast
  have "(\<lambda>i. if a \<le> i \<and> i < a + length [a..<n] then Raw else blk ! i) = (\<lambda>i. if a \<le> i \<and> i < n then Raw else blk ! i)"
    by (auto simp: fun_eq_iff)
  with h' show ?thesis by auto
qed


lemma owns_block:
  assumes "owns h v xs" and "arr v \<noteq> nullptr"
  shows "snd (arr v) = 0"
    and "lookup h (fst (arr v)) = Some (map Live xs @ replicate (unat (cap v) - unat (sz v)) Raw)"
    and "length xs = unat (sz v)" and "unat (sz v) \<le> unat (cap v)"
  using assms by (auto simp: owns_def)

lemma owns_null:
  assumes "owns h v xs" and "arr v = nullptr"
  shows "sz v = 0" and "cap v = 0" and "xs = []"
  using assms by (auto simp: owns_def unat_eq_0)

lemma clear_owned:
  assumes "owns h v xs"
  shows "\<exists>h'. clear (h, v) = Some (h', v\<lparr>sz := 0\<rparr>) \<and> owns h' (v\<lparr>sz := 0\<rparr>) []
           \<and> next_id h' = next_id h
           \<and> lookup h' = (if arr v = nullptr then lookup h
                           else (lookup h)(fst (arr v) \<mapsto> replicate (unat (cap v)) Raw))"
proof (cases "arr v = nullptr")
  case True
  note z = owns_null [OF assms True]
  show ?thesis
    using assms True by (simp add: clear_def z owns_def)
next
  case False
  let ?b = "fst (arr v)" and ?blk = "map Live xs @ replicate (unat (cap v) - unat (sz v)) Raw"
  note o = owns_block [OF assms False]
  have "\<exists>h'. destroy_each (?b, 0) [0..<unat (sz v)] h = Some h'
           \<and> lookup h' = (lookup h)(?b \<mapsto> tab (length ?blk)
                 (\<lambda>i. if 0 \<le> i \<and> i < unat (sz v) then Raw else ?blk ! i))
           \<and> next_id h' = next_id h \<and> ctor_calls h' = ctor_calls h"
    using o(2-4) by (intro destroy_range_live) (auto simp: nth_append)
  then obtain h' where h': "destroy_each (?b, 0) [0..<unat (sz v)] h = Some h'"
    "lookup h' = (lookup h)(?b \<mapsto> tab (length ?blk)
                 (\<lambda>i. if 0 \<le> i \<and> i < unat (sz v) then Raw else ?blk ! i))"
    "next_id h' = next_id h" by blast
  have t: "tab (length ?blk) (\<lambda>i. if 0 \<le> i \<and> i < unat (sz v) then Raw else ?blk ! i)
           = replicate (unat (cap v)) Raw"
    using o(2-4) by (auto simp: list_eq_iff_nth_eq nth_append)
  have av: "arr v = (?b, 0)" using o(1) by (simp add: prod_eq_iff)
  have d: "destroy_each (arr v) [0..<unat (sz v)] h = Some h'"
    using h'(1) av by simp
  have l: "lookup h' = (lookup h)(?b \<mapsto> replicate (unat (cap v)) Raw)"
    using h'(2) t by simp
  have c: "clear (h, v) = Some (h', v\<lparr>sz := 0\<rparr>)"
    by (simp add: clear_def d)
  have ow: "owns h' (v\<lparr>sz := 0\<rparr>) []"
    using False o(1) by (simp add: owns_def l)
  show ?thesis
    using c ow h'(3) l False by simp
qed

section \<open>Frames\<close>

lemma same_except_refl: "same_except b h h"
  by (simp add: same_except_def)

lemma same_except_trans: "same_except b h1 h2 \<Longrightarrow> same_except b h2 h3 \<Longrightarrow> same_except b h1 h3"
  by (simp add: same_except_def)

lemma same_except_poke: "same_except (fst p) h (poke h p s)"
  by (simp add: same_except_def lookup_poke split: option.splits)

lemma same_except_ctor_calls: "same_except b h (h\<lparr>ctor_calls := c\<rparr>)"
  by (simp add: same_except_def)

lemma lookup_fresh: "heap_ok h \<Longrightarrow> lookup h (next_id h) = None"
  by (cases "lookup h (next_id h)") (auto simp: heap_ok_iff)

lemma allocate_Some:
  assumes "allocate env n h = Some (p, h0)"
  shows "p = (next_id h, 0)" and "lookup h0 = (lookup h)(next_id h \<mapsto> replicate n Raw)"
    and "next_id h0 = Suc (next_id h)" and "ctor_calls h0 = ctor_calls h"
  using assms by (auto simp: allocate_def lookup_def fun_eq_iff split: if_splits)

lemma deallocate_Some:
  assumes "deallocate p n h = Some h'" and "fst p \<noteq> 0"
  shows "lookup h' = (lookup h)(fst p := None)"
  using assms
  by (auto simp: deallocate_def nullptr_def lookup_def delete_conv' fun_eq_iff
           split: if_splits option.splits)

lemma destroy_at_frame: "destroy_at p h = Some h' \<Longrightarrow> same_except (fst p) h h'"
  by (auto simp: destroy_at_def same_except_poke split: option.splits slot.splits)

lemma destroy_each_frame: "destroy_each p is h = Some h' \<Longrightarrow> same_except (fst p) h h'"
proof (induction "is" arbitrary: h)
  case Nil
  then show ?case by (simp add: same_except_refl)
next
  case (Cons i "is")
  then obtain h1 where h1: "destroy_at (ptr_add p (int i)) h = Some h1"
    "destroy_each p is h1 = Some h'"
    by (auto split: option.splits)
  have "same_except (fst p) h h1"
    using destroy_at_frame [OF h1(1)] by (simp add: ptr_add_def)
  with Cons.IH [OF h1(2)] show ?case by (rule same_except_trans [rotated])
qed

lemma construct_at_frame:
  shows "construct_at env p x h = Inr h' \<Longrightarrow> same_except (fst p) h h'"
    and "construct_at env p x h = Inl (Throw e h') \<Longrightarrow> lookup h' = lookup h"
  by (auto simp: construct_at_def Let_def same_except_def lookup_poke
           split: if_splits option.splits)

lemma construct_from_copy_frame:
  assumes "\<not> uses_move env"
  shows "construct_from env dst src h = Inr h' \<Longrightarrow> same_except (fst dst) h h'"
    and "construct_from env dst src h = Inl (Throw e h') \<Longrightarrow> same_except (fst dst) h h'"
  using assms
  by (auto simp: construct_from_def Let_def same_except_def lookup_poke
           split: if_splits option.splits slot.splits)

lemma construct_from_nothrow:
  "nothrow_move env \<Longrightarrow> construct_from env dst src h \<noteq> Inl (Throw e h')"
  by (auto simp: construct_from_def Let_def split: if_splits option.splits slot.splits)

lemma for_each_nothrow:
  assumes "\<And>i h e h'. body i h \<noteq> Inl (Throw e h')"
  shows "for_each body is h \<noteq> Inl (Throw e s)"
proof (induction "is" arbitrary: h)
  case Nil
  show ?case by simp
next
  case (Cons i "is")
  show ?case
    using Cons.IH assms [of i h]
    by (auto split: sum.splits error.splits)
qed

lemma for_each_frame:
  assumes inr: "\<And>i h h'. body i h = Inr h' \<Longrightarrow> same_except b h h'"
    and thr: "\<And>i h e h'. body i h = Inl (Throw e h') \<Longrightarrow> same_except b h h'"
  shows "for_each body is h = Inr h' \<Longrightarrow> same_except b h h'"
    and "for_each body is h = Inl (Throw e (h', k)) \<Longrightarrow> same_except b h h'"
proof (induction "is" arbitrary: h)
  case Nil
  { case 1 then show ?case by (simp add: same_except_refl) }
  { case 2 then show ?case by simp }
next
  case (Cons i "is")
  { case 1
    then obtain h1 where h1: "body i h = Inr h1" "for_each body is h1 = Inr h'"
      by (auto split: sum.splits error.splits)
    show ?case
      using inr [OF h1(1)] Cons.IH(1) [OF h1(2)] by (rule same_except_trans) }
  { case 2
    show ?case
    proof (cases "body i h")
      case (Inl er)
      with 2 have "body i h = Inl (Throw e h')"
        by (cases er) auto
      then show ?thesis by (rule thr)
    next
      case (Inr h1)
      with 2 have "for_each body is h1 = Inl (Throw e (h', k))" by simp
      from inr [OF Inr] Cons.IH(2) [OF this] show ?thesis by (rule same_except_trans)
    qed }
qed

text \<open>The transfer loop of \<^verbatim>\<open>reserve\<close> and \<^verbatim>\<open>emplace_back\<close>, when it throws.\<close>

lemma transfer_throw_frame:
  assumes "nothrow_move env \<or> copyable env"
    and "for_each (\<lambda>index. construct_from env (ptr_add newarr (int index)) (ptr_add old (int index)))
           is h = Inl (Throw e (h', k))"
  shows "same_except (fst newarr) h h'"
proof (cases "nothrow_move env")
  case True
  have "for_each (\<lambda>index. construct_from env (ptr_add newarr (int index)) (ptr_add old (int index)))
           is h \<noteq> Inl (Throw e (h', k))"
    by (rule for_each_nothrow) (rule construct_from_nothrow [OF True])
  with assms(2) show ?thesis by simp
next
  case False
  with assms(1) have c: "\<not> uses_move env" by (simp add: uses_move_def)
  show ?thesis
  proof (rule for_each_frame(2) [OF _ _ assms(2)])
    fix i h h' assume "construct_from env (ptr_add newarr (int i)) (ptr_add old (int i)) h = Inr h'"
    from construct_from_copy_frame(1) [OF c this] show "same_except (fst newarr) h h'"
      by (simp add: ptr_add_def)
  next
    fix i h e h'
    assume "construct_from env (ptr_add newarr (int i)) (ptr_add old (int i)) h = Inl (Throw e h')"
    from construct_from_copy_frame(2) [OF c this] show "same_except (fst newarr) h h'"
      by (simp add: ptr_add_def)
  qed
qed

lemma rollback_restores:
  assumes ok: "heap_ok h" and al: "allocate env n h = Some (newarr, h0)"
    and fr: "same_except (fst newarr) h0 h1"
    and rb: "rollback newarr index n h1 = Some h2"
  shows "lookup h2 = lookup h"
proof -
  note a = allocate_Some [OF al]
  have nid: "fst newarr = next_id h" "fst newarr \<noteq> 0"
    using a(1) ok by (auto simp: heap_ok_iff)
  from rb obtain h1' where d: "destroy_each newarr [0..<index] h1 = Some h1'"
    and de: "deallocate newarr n h1' = Some h2"
    by (auto simp: rollback_def split: option.splits)
  have l2: "lookup h2 = (lookup h1')(fst newarr := None)"
    using deallocate_Some [OF de nid(2)] .
  have "same_except (fst newarr) h0 h1'"
    using fr destroy_each_frame [OF d] by (rule same_except_trans)
  then have "\<forall>c. c \<noteq> next_id h \<longrightarrow> lookup h1' c = lookup h c"
    using a(2) nid(1) by (simp add: same_except_def)
  with l2 nid(1) lookup_fresh [OF ok] show ?thesis
    by (auto simp: fun_eq_iff)
qed

lemma reserve_throw_unchanged:
  assumes ok: "heap_ok h" and tr: "nothrow_move env \<or> copyable env"
    and th: "reserve env newcap (h, v) = Inl (Throw e (h', v'))"
  shows "v' = v \<and> lookup h' = lookup h"
proof (cases "allocate env (unat newcap) h")
  case None
  with th show ?thesis by (simp add: reserve_def)
next
  case (Some a)
  obtain newarr h0 where a: "a = (newarr, h0)" by (cases a)
  note al = Some [unfolded a]
  let ?loop = "for_each (\<lambda>index. construct_from env (ptr_add newarr (int index))
                                        (ptr_add (arr v) (int index))) [0..<unat (sz v)] h0"
  from th al obtain h1 index h2 where
    lp: "?loop = Inl (Throw e (h1, index))" and rb: "rollback newarr index (unat newcap) h1 = Some h2"
    and res: "h' = h2" "v' = v"
    by (auto simp: reserve_def split: sum.splits error.splits option.splits prod.splits)
  have "same_except (fst newarr) h0 h1"
    using tr lp by (rule transfer_throw_frame)
  from rollback_restores [OF ok al this rb] res show ?thesis by simp
qed


lemma emplace_back_throw_unchanged:
  assumes ok: "heap_ok h" and tr: "nothrow_move env \<or> copyable env"
    and th: "emplace_back env x (h, v) = Inl (Throw e (h', v'))"
  shows "v' = v \<and> lookup h' = lookup h"
proof (cases "sz v = cap v")
  case False
  with th show ?thesis
    by (auto simp: emplace_back_def construct_at_frame(2) split: sum.splits error.splits)
next
  case True
  let ?newcap = "if cap v > 0 then cap v * 2 else 1"
  show ?thesis
  proof (cases "allocate env (unat ?newcap) h")
    case None
    with th True show ?thesis by (simp add: emplace_back_def Let_def)
  next
    case (Some a)
    obtain newarr h0 where a: "a = (newarr, h0)" by (cases a)
    note al = Some [unfolded a]
    let ?attempt = "case construct_at env (ptr_add newarr (uint (sz v))) x h0 of
                  Inl UB \<Rightarrow> Inl UB
                | Inl (Throw e h1) \<Rightarrow> Inl (Throw e (h1, 0))
                | Inr h1 \<Rightarrow>
                    for_each (\<lambda>index. construct_from env (ptr_add newarr (int index))
                                         (ptr_add (arr v) (int index)))
                      [0..<unat (sz v)] h1"
    from th True al obtain h2 index h3 where
      tb: "?attempt = Inl (Throw e (h2, index))"
      and rb: "rollback newarr index (unat ?newcap) h2 = Some h3"
      and res: "h' = h3" "v' = v"
      by (auto simp: emplace_back_def Let_def
               split: sum.splits error.splits option.splits prod.splits)
    have "same_except (fst newarr) h0 h2"
    proof (cases "construct_at env (ptr_add newarr (uint (sz v))) x h0")
      case (Inl er)
      with tb have "construct_at env (ptr_add newarr (uint (sz v))) x h0 = Inl (Throw e h2)"
        by (cases er) auto
      from construct_at_frame(2) [OF this] show ?thesis
        by (simp add: same_except_def)
    next
      case (Inr h1)
      from construct_at_frame(1) [OF Inr] have 1: "same_except (fst newarr) h0 h1"
        by (simp add: ptr_add_def)
      from tb Inr have "for_each (\<lambda>index. construct_from env (ptr_add newarr (int index))
                                         (ptr_add (arr v) (int index)))
                      [0..<unat (sz v)] h1 = Inl (Throw e (h2, index))" by simp
      from transfer_throw_frame [OF tr this] have "same_except (fst newarr) h1 h2" .
      with 1 show ?thesis by (rule same_except_trans)
    qed
    from rollback_restores [OF ok al this rb] res show ?thesis by simp
  qed
qed

lemma elements_cong: "lookup h' = lookup h \<Longrightarrow> elements h' v = elements h v"
  by (simp add: elements_def peek_def)

section \<open>Runs without failure\<close>

lemma construct_at_ok:
  assumes "\<not> throws env (ctor_calls h)" and "lookup h b = Some blk" and "i < length blk"
  shows "\<exists>h'. construct_at env (b, int i) x h = Inr h'
           \<and> lookup h' = (lookup h)(b \<mapsto> blk[i := Live x])
           \<and> next_id h' = next_id h \<and> ctor_calls h' = Suc (ctor_calls h)"
proof -
  let ?h1 = "h\<lparr>ctor_calls := Suc (ctor_calls h)\<rparr>"
  have l1: "lookup ?h1 b = Some blk" using assms(2) by simp
  have "peek ?h1 (b, int i) = Some (blk ! i)"
    using assms(3) by (simp add: peek_block [OF l1])
  then have "construct_at env (b, int i) x h = Inr (poke ?h1 (b, int i) (Live x))"
    using assms(1) by (simp add: construct_at_def Let_def)
  then show ?thesis
    by (simp add: poke_block [OF l1])
qed

lemma construct_from_other:
  assumes "\<not> throws env (ctor_calls h)" and "a \<noteq> b"
    and "lookup h a = Some A" and "lookup h b = Some B"
    and "j < length A" and "A ! j = Live y" and "i < length B"
  shows "\<exists>h'. construct_from env (b, int i) (a, int j) h = Inr h'
           \<and> lookup h' = (lookup h)(a \<mapsto> A[j := Live (residue env y)], b \<mapsto> B[i := Live y])
           \<and> next_id h' = next_id h \<and> ctor_calls h' = Suc (ctor_calls h)"
proof -
  let ?h1 = "h\<lparr>ctor_calls := Suc (ctor_calls h)\<rparr>"
  let ?h2 = "if uses_move env then poke ?h1 (a, int j) (Live (moved_from env y)) else ?h1"
  have pk: "peek h (a, int j) = Some (Live y)"
    using assms(5,6) by (simp add: peek_block [OF assms(3)])
  have l1a: "lookup ?h1 a = Some A" and l1b: "lookup ?h1 b = Some B"
    using assms(3,4) by simp_all
  have Aj: "A[j := Live y] = A" using assms(6) by (metis list_update_id)
  have l2: "lookup ?h2 = (lookup h)(a \<mapsto> A[j := Live (residue env y)])"
    using assms(3) by (auto simp: poke_block [OF l1a] residue_def Aj fun_eq_iff)
  have n2: "next_id ?h2 = next_id h" "ctor_calls ?h2 = Suc (ctor_calls h)"
    by simp_all
  have l2b: "lookup ?h2 b = Some B"
    using l2 assms(2,4) by simp
  have pk2: "peek ?h2 (b, int i) = Some (B ! i)"
    using assms(7) by (simp add: peek_block [OF l2b])
  have "construct_from env (b, int i) (a, int j) h = Inr (poke ?h2 (b, int i) (Live y))"
    using assms(1) pk pk2 by (simp add: construct_from_def Let_def)
  moreover have "lookup (poke ?h2 (b, int i) (Live y))
      = (lookup h)(a \<mapsto> A[j := Live (residue env y)], b \<mapsto> B[i := Live y])"
    by (simp add: poke_block [OF l2b] l2)
  moreover have "next_id (poke ?h2 (b, int i) (Live y)) = next_id h"
    "ctor_calls (poke ?h2 (b, int i) (Live y)) = Suc (ctor_calls h)"
    using n2 by (simp_all del: next_id_poke ctor_calls_poke add: next_id_poke [of ?h2] ctor_calls_poke [of ?h2])
  ultimately show ?thesis by blast
qed

lemma transfer_loop:
  assumes nt: "\<forall>k. \<not> throws env k" and ab: "a \<noteq> b"
    and A: "lookup h a = Some A" and B: "lookup h b = Some B"
    and n: "n \<le> length A" "n \<le> length B" "length xs = n"
    and live: "\<And>j. j < n \<Longrightarrow> A ! j = Live (xs ! j)"
  shows "\<exists>h'. for_each (\<lambda>index. construct_from env (ptr_add (b, 0) (int index))
                                         (ptr_add (a, 0) (int index))) [0..<n] h = Inr h'
           \<and> lookup h' = (lookup h)
                (a \<mapsto> tab (length A) (\<lambda>j. if j < n then Live (residue env (xs ! j)) else A ! j),
                 b \<mapsto> tab (length B) (\<lambda>j. if j < n then Live (xs ! j) else B ! j))
           \<and> next_id h' = next_id h \<and> ctor_calls h' = ctor_calls h + n"
proof -
  let ?body = "\<lambda>index. construct_from env (ptr_add (b, 0) (int index)) (ptr_add (a, 0) (int index))"
  let ?TA = "\<lambda>k. tab (length A) (\<lambda>j. if j < k then Live (residue env (xs ! j)) else A ! j)"
  let ?TB = "\<lambda>k. tab (length B) (\<lambda>j. if j < k then Live (xs ! j) else B ! j)"
  let ?P = "\<lambda>k h'. lookup h' = (lookup h)(a \<mapsto> ?TA k, b \<mapsto> ?TB k)
              \<and> next_id h' = next_id h \<and> ctor_calls h' = ctor_calls h + k"
  have "\<exists>h'. for_each ?body [0..<n] h = Inr h' \<and> ?P (length [0..<n]) h'"
  proof (rule for_each_rule [where P = ?P])
    have "?TA 0 = A" "?TB 0 = B" by (simp_all add: list_eq_iff_nth_eq)
    then show "?P 0 h" using A B by (auto simp: fun_eq_iff)
  next
    fix k h1 assume k: "k < length [0..<n]" and P: "?P k h1"
    from k have kn: "k < n" by simp
    have la: "lookup h1 a = Some (?TA k)" and lb: "lookup h1 b = Some (?TB k)"
      using P ab by simp_all
    have lv: "?TA k ! k = Live (xs ! k)" using kn n live by simp
    have "\<exists>h'. construct_from env (b, int k) (a, int k) h1 = Inr h'
           \<and> lookup h' = (lookup h1)(a \<mapsto> (?TA k)[k := Live (residue env (xs ! k))],
                                      b \<mapsto> (?TB k)[k := Live (xs ! k)])
           \<and> next_id h' = next_id h1 \<and> ctor_calls h' = Suc (ctor_calls h1)"
      using nt ab la lb lv kn n by (intro construct_from_other) simp_all
    then obtain h' where h': "construct_from env (b, int k) (a, int k) h1 = Inr h'"
      "lookup h' = (lookup h1)(a \<mapsto> (?TA k)[k := Live (residue env (xs ! k))],
                                      b \<mapsto> (?TB k)[k := Live (xs ! k)])"
      "next_id h' = next_id h1" "ctor_calls h' = Suc (ctor_calls h1)" by blast
    have ta: "(?TA k)[k := Live (residue env (xs ! k))] = ?TA (Suc k)"
      by (auto simp: tab_update tab_eq_iff less_Suc_eq)
    have tb: "(?TB k)[k := Live (xs ! k)] = ?TB (Suc k)"
      by (auto simp: tab_update tab_eq_iff less_Suc_eq)
    have "?P (Suc k) h'"
      using h'(2-4) P by (simp add: ta tb)
    with h'(1) kn show "\<exists>h'. ?body ([0..<n] ! k) h1 = Inr h' \<and> ?P (Suc k) h'"
      by (auto simp: ptr_add_def)
  qed
  then show ?thesis by simp
qed


lemma deallocate_ok:
  assumes "lookup h b = Some blk" and "length blk = n" and "b \<noteq> 0"
  shows "\<exists>h'. deallocate (b, 0) n h = Some h' \<and> lookup h' = (lookup h)(b := None)
           \<and> next_id h' = next_id h \<and> ctor_calls h' = ctor_calls h"
  using assms
  by (auto simp: deallocate_def nullptr_def lookup_def delete_conv' fun_eq_iff)

lemma transfer_release:
  assumes nt: "\<forall>k. \<not> throws env k" and ab: "a \<noteq> b" and a0: "a \<noteq> 0"
    and v: "arr v = (a, 0)" "length xs = unat (sz v)"
    and A: "lookup h a = Some (map Live xs @ replicate (unat (cap v) - unat (sz v)) Raw)"
      "unat (sz v) \<le> unat (cap v)"
    and B: "lookup h b = Some B" "length xs \<le> length B"
  shows "\<exists>h1 h2. for_each (\<lambda>index. construct_from env (ptr_add (b, 0) (int index))
                                         (ptr_add (arr v) (int index))) [0..<unat (sz v)] h = Inr h1
           \<and> release v h1 = Some h2
           \<and> lookup h2 = (lookup h)
                (a := None, b \<mapsto> tab (length B) (\<lambda>j. if j < length xs then Live (xs ! j) else B ! j))
           \<and> next_id h2 = next_id h"
proof -
  let ?A = "map Live xs @ replicate (unat (cap v) - unat (sz v)) Raw"
  let ?n = "unat (sz v)"
  have lenA: "length ?A = unat (cap v)" using v(2) A(2) by simp
  have "\<exists>h'. for_each (\<lambda>index. construct_from env (ptr_add (b, 0) (int index))
                                         (ptr_add (a, 0) (int index))) [0..<?n] h = Inr h'
           \<and> lookup h' = (lookup h)
                (a \<mapsto> tab (length ?A) (\<lambda>j. if j < ?n then Live (residue env (xs ! j)) else ?A ! j),
                 b \<mapsto> tab (length B) (\<lambda>j. if j < ?n then Live (xs ! j) else B ! j))
           \<and> next_id h' = next_id h \<and> ctor_calls h' = ctor_calls h + ?n"
    using nt ab A(1) B(1)
  proof (rule transfer_loop)
    show "?n \<le> length ?A" using v(2) by simp
    show "?n \<le> length B" using v(2) B(2) by simp
    show "length xs = ?n" by (rule v(2))
    show "\<And>j. j < ?n \<Longrightarrow> ?A ! j = Live (xs ! j)" using v(2) by (simp add: nth_append)
  qed
  then obtain h1 where h1: "for_each (\<lambda>index. construct_from env (ptr_add (b, 0) (int index))
                                         (ptr_add (a, 0) (int index))) [0..<?n] h = Inr h1"
    and l1: "lookup h1 = (lookup h)
                (a \<mapsto> tab (length ?A) (\<lambda>j. if j < ?n then Live (residue env (xs ! j)) else ?A ! j),
                 b \<mapsto> tab (length B) (\<lambda>j. if j < ?n then Live (xs ! j) else B ! j))"
    and n1: "next_id h1 = next_id h" by blast
  let ?A1 = "tab (length ?A) (\<lambda>j. if j < ?n then Live (residue env (xs ! j)) else ?A ! j)"
  have l1a: "lookup h1 a = Some ?A1" using l1 ab by simp
  have "\<exists>h'. destroy_each (a, 0) [0..<?n] h1 = Some h'
           \<and> lookup h' = (lookup h1)(a \<mapsto> tab (length ?A1) (\<lambda>i. if 0 \<le> i \<and> i < ?n then Raw else ?A1 ! i))
           \<and> next_id h' = next_id h1 \<and> ctor_calls h' = ctor_calls h1"
    using l1a
  proof (rule destroy_range_live)
    show "?n \<le> length ?A1" using v(2) by simp
    show "\<And>i. 0 \<le> i \<Longrightarrow> i < ?n \<Longrightarrow> \<exists>x. ?A1 ! i = Live x" using v(2) by simp
  qed
  then obtain h1' where d: "destroy_each (a, 0) [0..<?n] h1 = Some h1'"
    and l1': "lookup h1' = (lookup h1)(a \<mapsto> tab (length ?A1) (\<lambda>i. if 0 \<le> i \<and> i < ?n then Raw else ?A1 ! i))"
    and n1': "next_id h1' = next_id h1" by blast
  have "\<exists>h'. deallocate (a, 0) (unat (cap v)) h1' = Some h' \<and> lookup h' = (lookup h1')(a := None)
           \<and> next_id h' = next_id h1' \<and> ctor_calls h' = ctor_calls h1'"
  proof (rule deallocate_ok)
    show "lookup h1' a = Some (tab (length ?A1) (\<lambda>i. if 0 \<le> i \<and> i < ?n then Raw else ?A1 ! i))"
      using l1' by simp
    show "length (tab (length ?A1) (\<lambda>i. if 0 \<le> i \<and> i < ?n then Raw else ?A1 ! i)) = unat (cap v)"
      using lenA by simp
    show "a \<noteq> 0" by (rule a0)
  qed
  then obtain h2 where de: "deallocate (a, 0) (unat (cap v)) h1' = Some h2"
    and l2: "lookup h2 = (lookup h1')(a := None)" and n2: "next_id h2 = next_id h1'" by blast
  have rel: "release v h1 = Some h2"
    using d de by (simp add: release_def v(1))
  have "lookup h2 = (lookup h)
                (a := None, b \<mapsto> tab (length B) (\<lambda>j. if j < length xs then Live (xs ! j) else B ! j))"
    using l2 l1' l1 ab v(2) by (auto simp: fun_eq_iff)
  with h1 rel n1 n1' n2 show ?thesis by (simp add: v(1))
qed

lemma raw_block_filled:
  assumes "length xs \<le> n"
  shows "tab n (\<lambda>j. if j < length xs then Live (xs ! j) else replicate n Raw ! j)
         = map Live xs @ replicate (n - length xs) Raw"
  using assms by (auto simp: list_eq_iff_nth_eq nth_append)

lemma reserve_ok:
  assumes ok: "heap_ok h" and ow: "owns h v xs" and nt: "\<forall>k. \<not> throws env k"
    and ca: "can_alloc env (unat newcap)" and fit: "unat (sz v) \<le> unat newcap"
  shows "\<exists>h'. reserve env newcap (h, v) = Inr (h', v\<lparr>arr := (next_id h, 0), cap := newcap\<rparr>)
           \<and> lookup h' = (lookup h)
                (fst (arr v) := None,
                 next_id h \<mapsto> map Live xs @ replicate (unat newcap - unat (sz v)) Raw)
           \<and> next_id h' = Suc (next_id h)"
proof -
  let ?nid = "next_id h" and ?n = "unat newcap"
  obtain h0 where al: "allocate env ?n h = Some ((?nid, 0), h0)"
    and l0: "lookup h0 = (lookup h)(?nid \<mapsto> replicate ?n Raw)"
    and n0: "next_id h0 = Suc ?nid"
    using ca by (auto simp: allocate_def lookup_def fun_eq_iff)
  show ?thesis
  proof (cases "arr v = nullptr")
    case True
    note z = owns_null [OF ow True]
    have "reserve env newcap (h, v) = Inr (h0, v\<lparr>arr := (?nid, 0), cap := newcap\<rparr>)"
      using al True z by (simp add: reserve_def release_def deallocate_def)
    moreover have "lookup h0 = (lookup h)
                (fst (arr v) := None, ?nid \<mapsto> map Live xs @ replicate (?n - unat (sz v)) Raw)"
      using l0 True z lookup_null [OF ok] by (auto simp: nullptr_def fun_eq_iff)
    ultimately show ?thesis using n0 by simp
  next
    case False
    let ?a = "fst (arr v)"
    note o = owns_block [OF ow False]
    have av: "arr v = (?a, 0)" using o(1) by (simp add: prod_eq_iff)
    have a_lt: "0 < ?a" "?a < ?nid"
      using ok o(2) by (auto simp: heap_ok_iff)
    have "\<exists>h1 h2. for_each (\<lambda>index. construct_from env (ptr_add (?nid, 0) (int index))
                                         (ptr_add (arr v) (int index))) [0..<unat (sz v)] h0 = Inr h1
           \<and> release v h1 = Some h2
           \<and> lookup h2 = (lookup h0)
                (?a := None, ?nid \<mapsto> tab (length (replicate ?n (Raw :: 'a slot)))
                   (\<lambda>j. if j < length xs then Live (xs ! j) else replicate ?n Raw ! j))
           \<and> next_id h2 = next_id h0"
    proof (rule transfer_release [OF nt])
      show "?a \<noteq> ?nid" "?a \<noteq> 0" using a_lt by simp_all
      show "arr v = (?a, 0)" by (rule av)
      show "length xs = unat (sz v)" by (rule o(3))
      show "lookup h0 ?a = Some (map Live xs @ replicate (unat (cap v) - unat (sz v)) Raw)"
        using l0 o(2) a_lt by simp
      show "unat (sz v) \<le> unat (cap v)" by (rule o(4))
      show "lookup h0 ?nid = Some (replicate ?n Raw)" using l0 by simp
      show "length xs \<le> length (replicate ?n (Raw :: 'a slot))" using o(3) fit by simp
    qed
    then obtain h1 h2 where lp: "for_each (\<lambda>index. construct_from env (ptr_add (?nid, 0) (int index))
                                         (ptr_add (arr v) (int index))) [0..<unat (sz v)] h0 = Inr h1"
      and rel: "release v h1 = Some h2"
      and l2: "lookup h2 = (lookup h0)
                (?a := None, ?nid \<mapsto> tab (length (replicate ?n (Raw :: 'a slot)))
                   (\<lambda>j. if j < length xs then Live (xs ! j) else replicate ?n Raw ! j))"
      and n2: "next_id h2 = next_id h0" by blast
    have "reserve env newcap (h, v) = Inr (h2, v\<lparr>arr := (?nid, 0), cap := newcap\<rparr>)"
      using al lp rel by (simp add: reserve_def)
    moreover have "lookup h2 = (lookup h)
                (?a := None, ?nid \<mapsto> map Live xs @ replicate (?n - unat (sz v)) Raw)"
      using l2 l0 a_lt o(3) fit raw_block_filled [of xs ?n] by (auto simp: fun_eq_iff)
    ultimately show ?thesis using n2 n0 by simp
  qed
qed


lemma unat_succ:
  fixes w c :: "'a::len word"
  assumes "unat w < unat c"
  shows "unat (w + 1) = Suc (unat w)"
proof -
  have "unat c < 2 ^ LENGTH('a)" by (rule unsigned_less)
  with assms have "Suc (unat w) < 2 ^ LENGTH('a)" by linarith
  then have "unat w + unat (1 :: 'a word) < 2 ^ LENGTH('a)"
    by simp
  then have "unat (w + 1) = unat w + unat (1 :: 'a word)"
    by (simp only: unat_add_lem)
  then show ?thesis by simp
qed

lemma unat_succ_bound:
  fixes w :: size_type
  assumes "unat w < 2 ^ 63"
  shows "unat (w + 1) = Suc (unat w)"
proof -
  have "unat w + unat (1 :: size_type) < 2 ^ LENGTH(64)"
    using assms by simp
  then have "unat (w + 1) = unat w + unat (1 :: size_type)"
    by (simp only: unat_add_lem)
  then show ?thesis by simp
qed

lemma grown_block:
  assumes "length xs < n"
  shows "tab n (\<lambda>j. if j < length xs then Live (xs ! j)
                     else (replicate n Raw)[length xs := Live x] ! j)
         = map Live (xs @ [x]) @ replicate (n - length (xs @ [x])) Raw"
  using assms by (auto simp: list_eq_iff_nth_eq nth_append nth_list_update)

lemma heap_okI:
  assumes "0 < next_id h'" and "\<And>b blk. lookup h' b = Some blk \<Longrightarrow> 0 < b \<and> b < next_id h'"
  shows "heap_ok h'"
  using assms by (simp add: heap_ok_iff)

lemma heap_ok_lookup: "heap_ok h \<Longrightarrow> lookup h b = Some blk \<Longrightarrow> 0 < b \<and> b < next_id h"
  by (simp add: heap_ok_iff)

lemma heap_ok_next: "heap_ok h \<Longrightarrow> 0 < next_id h"
  by (simp add: heap_ok_iff)

lemma emplace_back_grow:
  assumes full: "sz v = cap v"
    and al: "allocate env (unat (if cap v > 0 then cap v * 2 else 1)) h = Some (newarr, h0)"
    and c1: "construct_at env (ptr_add newarr (uint (sz v))) x h0 = Inr h1"
    and lp: "for_each (\<lambda>index. construct_from env (ptr_add newarr (int index))
                                    (ptr_add (arr v) (int index))) [0..<unat (sz v)] h1 = Inr h2"
    and rel: "release v h2 = Some h3"
  shows "emplace_back env x (h, v) =
           Inr (h3, v\<lparr>arr := newarr, cap := (if cap v > 0 then cap v * 2 else 1), sz := sz v + 1\<rparr>)"
  unfolding emplace_back_def Let_def
  by (simp only: prod.case eq_True [THEN iffD2, OF full] if_True al option.case c1 sum.case lp rel)

lemma emplace_back_in_place:
  assumes "sz v \<noteq> cap v"
    and "construct_at env (ptr_add (arr v) (uint (sz v))) x h = Inr h1"
  shows "emplace_back env x (h, v) = Inr (h1, v\<lparr>sz := sz v + 1\<rparr>)"
  unfolding emplace_back_def Let_def
  by (simp only: prod.case eq_False [THEN iffD2, OF assms(1)] if_False assms(2) sum.case)

lemma reserve_success:
  assumes al: "allocate env (unat newcap) h = Some (newarr, h0)"
    and lp: "for_each (\<lambda>index. construct_from env (ptr_add newarr (int index))
                                    (ptr_add (arr v) (int index))) [0..<unat (sz v)] h0 = Inr h1"
    and rel: "release v h1 = Some h2"
  shows "reserve env newcap (h, v) = Inr (h2, v\<lparr>arr := newarr, cap := newcap\<rparr>)"
  unfolding reserve_def
  by (simp only: prod.case al option.case lp sum.case rel)

lemma emplace_back_ok:
  assumes ok: "heap_ok h" and ow: "owns h v xs" and nt: "\<forall>k. \<not> throws env k"
    and ca: "\<forall>n. can_alloc env n" and bound: "unat (sz v) < 2 ^ 63"
  shows "\<exists>h' v'. emplace_back env x (h, v) = Inr (h', v') \<and> heap_ok h'
           \<and> owns h' v' (xs @ [x]) \<and> sz v' = sz v + 1"
proof (cases "sz v = cap v")
  case False
  have nn: "arr v \<noteq> nullptr"
    using False owns_null(1,2) [OF ow] by auto
  let ?a = "fst (arr v)" and ?n = "unat (sz v)"
  let ?A = "map Live xs @ replicate (unat (cap v) - ?n) Raw"
  note o = owns_block [OF ow nn]
  have lt: "?n < unat (cap v)"
    using False o(4) by (simp add: word_unat_eq_iff)
  have s1: "unat (sz v + 1) = Suc ?n"
    using lt by (rule unat_succ)
  have "\<exists>h'. construct_at env (?a, int ?n) x h = Inr h'
           \<and> lookup h' = (lookup h)(?a \<mapsto> ?A[?n := Live x])
           \<and> next_id h' = next_id h \<and> ctor_calls h' = Suc (ctor_calls h)"
    using nt o(2,3) lt by (intro construct_at_ok) simp_all
  then obtain h' where c: "construct_at env (?a, int ?n) x h = Inr h'"
    and l: "lookup h' = (lookup h)(?a \<mapsto> ?A[?n := Live x])"
    and n: "next_id h' = next_id h" by blast
  have p: "ptr_add (arr v) (uint (sz v)) = (?a, int ?n)"
    using o(1) by (simp add: ptr_add_def)
  have res: "emplace_back env x (h, v) = Inr (h', v\<lparr>sz := sz v + 1\<rparr>)"
    using False c [folded p] by (rule emplace_back_in_place)
  have blk: "?A[?n := Live x] = map Live (xs @ [x]) @ replicate (unat (cap v) - Suc ?n) Raw"
    using o(3) lt by (auto simp: list_eq_iff_nth_eq nth_append nth_list_update)
  have ow': "owns h' (v\<lparr>sz := sz v + 1\<rparr>) (xs @ [x])"
    using nn o(1,3) lt by (simp add: owns_def s1 l blk)
  have ok': "heap_ok h'"
  proof (rule heap_okI)
    show "0 < next_id h'" using n heap_ok_next [OF ok] by simp
    fix b blk assume "lookup h' b = Some blk"
    then have "\<exists>blk0. lookup h b = Some blk0"
      using l o(2) by (cases "b = ?a") auto
    then show "0 < b \<and> b < next_id h'"
      using heap_ok_lookup [OF ok] n by auto
  qed
  from res ow' ok' show ?thesis by auto
next
  case True
  define newcap :: size_type where "newcap = (if cap v > 0 then cap v * 2 else 1)"
  let ?nid = "next_id h" and ?n = "unat (sz v)" and ?m = "unat newcap"
  have len: "length xs = ?n" using ow by (simp add: owns_def)
  have m: "?n < ?m"
  proof (cases "cap v = 0")
    case c0: True
    with True show ?thesis by (simp add: newcap_def)
  next
    case False
    then have pos: "0 < unat (cap v)" by (simp add: unat_gt_0)
    have "unat (cap v) * unat (2 :: size_type) < 2 ^ LENGTH(64)"
      using bound True by simp
    then have "unat (cap v * 2) = unat (cap v) * unat (2 :: size_type)"
      by (simp only: unat_mult_lem)
    then show ?thesis using False True pos by (simp add: word_gt_0 newcap_def)
  qed
  have s1: "unat (sz v + 1) = Suc ?n"
    using bound by (rule unat_succ_bound)
  obtain h0 where al: "allocate env ?m h = Some ((?nid, 0), h0)"
    and l0: "lookup h0 = (lookup h)(?nid \<mapsto> replicate ?m Raw)"
    and n0: "next_id h0 = Suc ?nid" and c0: "ctor_calls h0 = ctor_calls h"
    using ca by (auto simp: allocate_def lookup_def fun_eq_iff)
  let ?B = "(replicate ?m (Raw :: 'a slot))[?n := Live x]"
  have "\<exists>h'. construct_at env (?nid, int ?n) x h0 = Inr h'
           \<and> lookup h' = (lookup h0)(?nid \<mapsto> ?B)
           \<and> next_id h' = next_id h0 \<and> ctor_calls h' = Suc (ctor_calls h0)"
    using nt l0 m by (intro construct_at_ok) simp_all
  then obtain h1 where c1: "construct_at env (?nid, int ?n) x h0 = Inr h1"
    and l1: "lookup h1 = (lookup h0)(?nid \<mapsto> ?B)"
    and n1: "next_id h1 = next_id h0" by blast
  have p: "ptr_add (?nid, 0) (uint (sz v)) = (?nid, int ?n)"
    by (simp add: ptr_add_def)
  let ?v' = "v\<lparr>arr := (?nid, 0), cap := newcap, sz := sz v + 1\<rparr>"
  let ?new = "map Live (xs @ [x]) @ replicate (?m - length (xs @ [x])) Raw"
  have new: "tab (length ?B) (\<lambda>j. if j < length xs then Live (xs ! j) else ?B ! j) = ?new"
    using m grown_block [of xs ?m x] unfolding len [symmetric] by simp
  have "\<exists>h'. emplace_back env x (h, v) = Inr (h', ?v')
          \<and> lookup h' = (lookup h)(fst (arr v) := None, ?nid \<mapsto> ?new)
          \<and> next_id h' = Suc ?nid"
  proof (cases "arr v = nullptr")
    case nul: True
    note z = owns_null [OF ow nul]
    have lp: "for_each (\<lambda>index. construct_from env (ptr_add (?nid, 0) (int index))
                                         (ptr_add (arr v) (int index))) [0..<?n] h1 = Inr h1"
      using z(1) by simp
    have rel: "release v h1 = Some h1"
      using nul z(1) by (simp add: release_def deallocate_def)
    have "emplace_back env x (h, v) = Inr (h1, ?v')"
      using emplace_back_grow [OF True al [unfolded newcap_def] c1 [folded p] lp rel]
      by (simp only: newcap_def)
    moreover have "?B = ?new"
    proof -
      obtain k where k: "?m = Suc k" using m by (cases ?m) auto
      show ?thesis using z(1,3) by (simp add: k)
    qed
    then have "lookup h1 = (lookup h)(fst (arr v) := None, ?nid \<mapsto> ?new)"
      using l1 l0 nul lookup_null [OF ok] by (auto simp: nullptr_def fun_eq_iff)
    ultimately show ?thesis using n1 n0 by simp
  next
    case False
    let ?a = "fst (arr v)"
    note o = owns_block [OF ow False]
    have av: "arr v = (?a, 0)" using o(1) by (simp add: prod_eq_iff)
    have a_lt: "0 < ?a" "?a < ?nid"
      using heap_ok_lookup [OF ok o(2)] by simp_all
    have "\<exists>h2 h3. for_each (\<lambda>index. construct_from env (ptr_add (?nid, 0) (int index))
                                         (ptr_add (arr v) (int index))) [0..<?n] h1 = Inr h2
           \<and> release v h2 = Some h3
           \<and> lookup h3 = (lookup h1)
                (?a := None, ?nid \<mapsto> tab (length ?B)
                   (\<lambda>j. if j < length xs then Live (xs ! j) else ?B ! j))
           \<and> next_id h3 = next_id h1"
    proof (rule transfer_release [OF nt])
      show "?a \<noteq> ?nid" "?a \<noteq> 0" using a_lt by simp_all
      show "arr v = (?a, 0)" by (rule av)
      show "length xs = ?n" by (rule o(3))
      show "lookup h1 ?a = Some (map Live xs @ replicate (unat (cap v) - ?n) Raw)"
        using l1 l0 o(2) a_lt by simp
      show "?n \<le> unat (cap v)" by (rule o(4))
      show "lookup h1 ?nid = Some ?B" using l1 by simp
      show "length xs \<le> length ?B" using o(3) m by simp
    qed
    then obtain h2 h3 where lp: "for_each (\<lambda>index. construct_from env (ptr_add (?nid, 0) (int index))
                                         (ptr_add (arr v) (int index))) [0..<?n] h1 = Inr h2"
      and rel: "release v h2 = Some h3"
      and l3: "lookup h3 = (lookup h1)
                (?a := None, ?nid \<mapsto> tab (length ?B)
                   (\<lambda>j. if j < length xs then Live (xs ! j) else ?B ! j))"
      and n3: "next_id h3 = next_id h1" by blast
    have "emplace_back env x (h, v) = Inr (h3, ?v')"
      using emplace_back_grow [OF True al [unfolded newcap_def] c1 [folded p] lp rel]
      by (simp only: newcap_def)
    moreover have "lookup h3 = (lookup h)(?a := None, ?nid \<mapsto> ?new)"
      unfolding l3 new using l1 l0 a_lt by (auto simp: fun_eq_iff)
    ultimately show ?thesis using n3 n1 n0 by simp
  qed
  then obtain h' where res: "emplace_back env x (h, v) = Inr (h', ?v')"
    and l': "lookup h' = (lookup h)(fst (arr v) := None, ?nid \<mapsto> ?new)"
    and n': "next_id h' = Suc ?nid" by blast
  have ow': "owns h' ?v' (xs @ [x])"
    using heap_ok_next [OF ok] len m
    by (simp add: owns_def s1 l' nullptr_def)
  have ok': "heap_ok h'"
  proof (rule heap_okI)
    show "0 < next_id h'" using n' by simp
    fix b blk assume b: "lookup h' b = Some blk"
    show "0 < b \<and> b < next_id h'"
    proof (cases "b = ?nid")
      case True
      then show ?thesis using n' heap_ok_next [OF ok] by simp
    next
      case False
      with b l' have "lookup h b = Some blk" by (auto split: if_splits)
      from heap_ok_lookup [OF ok this] n' show ?thesis by simp
    qed
  qed
  from res ow' ok' show ?thesis by auto
qed

lemma push_all_ok:
  assumes nt: "\<forall>k. \<not> throws env k" and ca: "\<forall>n. can_alloc env n"
  shows "heap_ok h \<Longrightarrow> owns h v ys \<Longrightarrow> length ys + length xs \<le> 2 ^ 63 \<Longrightarrow>
         \<exists>h' v'. push_all env xs (h, v) = Inr (h', v') \<and> heap_ok h' \<and> owns h' v' (ys @ xs)"
proof (induction xs arbitrary: h v ys)
  case Nil
  then show ?case by simp
next
  case (Cons x xs)
  have len: "length ys = unat (sz v)" using Cons.prems(2) by (simp add: owns_def)
  have "unat (sz v) < 2 ^ 63" using Cons.prems(3) len by simp
  from emplace_back_ok [OF Cons.prems(1,2) nt ca this, of x]
  obtain h1 v1 where s: "emplace_back env x (h, v) = Inr (h1, v1)" "heap_ok h1"
    "owns h1 v1 (ys @ [x])" by blast
  have "length (ys @ [x]) + length xs \<le> 2 ^ 63" using Cons.prems(3) by simp
  from Cons.IH [OF s(2,3) this]
  obtain h' v' where "push_all env xs (h1, v1) = Inr (h', v')" "heap_ok h'"
    "owns h' v' ((ys @ [x]) @ xs)" by blast
  with s(1) show ?case by (simp add: push_back_def)
qed

lemma unat_of_nat_small:
  assumes "i < unat (w :: size_type)"
  shows "unat (of_nat i :: size_type) = i"
proof -
  have "unat w < 2 ^ LENGTH(64)" by (rule unsigned_less)
  with assms have "i < 2 ^ LENGTH(64)" by linarith
  then show ?thesis by (simp add: unat_of_nat)
qed

lemma owns_subscript:
  assumes "owns h v xs" and "i < length xs"
  shows "subscript h v (of_nat i) = Some (Live (xs ! i))"
proof -
  have len: "length xs = unat (sz v)" using assms(1) by (simp add: owns_def)
  have nn: "arr v \<noteq> nullptr"
    using owns_null(3) [OF assms(1)] assms(2) by auto
  note o = owns_block [OF assms(1) nn]
  have i: "unat (of_nat i :: size_type) = i"
    using assms(2) len by (intro unat_of_nat_small [of _ "sz v"]) simp
  have u: "uint (of_nat i :: size_type) = int i"
    by (simp only: uint_nat i)
  have "ptr_add (arr v) (uint (of_nat i :: size_type)) = (fst (arr v), int i)"
    using o(1) by (simp only: u ptr_add_def) simp
  then show ?thesis
    using assms(2) len o(4) by (simp add: subscript_def peek_block [OF o(2)] nth_append)
qed

section \<open>Opening a gap and filling it\<close>

lemma construct_copy_ok:
  assumes "\<not> throws env (ctor_calls h)"
    and "lookup h a = Some A" and "j < length A" and "A ! j = Live y"
    and "lookup h b = Some B" and "i < length B"
  shows "\<exists>h'. construct_copy env (b, int i) (a, int j) h = Inr h'
           \<and> lookup h' = (lookup h)(b \<mapsto> B[i := Live y])
           \<and> next_id h' = next_id h \<and> ctor_calls h' = Suc (ctor_calls h)"
proof -
  have pk: "peek h (a, int j) = Some (Live y)"
    using assms(3,4) by (simp add: peek_block [OF assms(2)])
  have "construct_copy env (b, int i) (a, int j) h = construct_at env (b, int i) y h"
    by (simp add: construct_copy_def pk)
  with construct_at_ok [OF assms(1,5,6), of y] show ?thesis by simp
qed

lemma copy_loop:
  assumes nt: "\<forall>k. \<not> throws env k" and ab: "a \<noteq> b"
    and A: "lookup h a = Some A" and B: "lookup h b = Some B"
    and n: "so + n \<le> length A" "to + n \<le> length B" "length ys = n"
    and live: "\<And>j. j < n \<Longrightarrow> A ! (so + j) = Live (ys ! j)"
    and body: "\<And>i h. i < n \<Longrightarrow>
                 body i h = construct_copy env (b, int (to + i)) (a, int (so + i)) h"
  shows "\<exists>h'. for_each body [0..<n] h = Inr h'
           \<and> lookup h' = (lookup h)
                (b \<mapsto> tab (length B)
                   (\<lambda>j. if to \<le> j \<and> j < to + n then Live (ys ! (j - to)) else B ! j))
           \<and> next_id h' = next_id h \<and> ctor_calls h' = ctor_calls h + n"
proof -
  let ?TB = "\<lambda>k. tab (length B) (\<lambda>j. if to \<le> j \<and> j < to + k then Live (ys ! (j - to)) else B ! j)"
  let ?P = "\<lambda>k h'. lookup h' = (lookup h)(b \<mapsto> ?TB k)
              \<and> next_id h' = next_id h \<and> ctor_calls h' = ctor_calls h + k"
  have "\<exists>h'. for_each body [0..<n] h = Inr h' \<and> ?P (length [0..<n]) h'"
  proof (rule for_each_rule [where P = ?P])
    have "?TB 0 = B" by (auto simp: list_eq_iff_nth_eq)
    then show "?P 0 h" using B by (auto simp: fun_eq_iff)
  next
    fix k h1 assume k: "k < length [0..<n]" and P: "?P k h1"
    from k have kn: "k < n" by simp
    have la: "lookup h1 a = Some A" and lb: "lookup h1 b = Some (?TB k)"
      using P ab A by simp_all
    have "\<exists>h'. construct_copy env (b, int (to + k)) (a, int (so + k)) h1 = Inr h'
           \<and> lookup h' = (lookup h1)(b \<mapsto> (?TB k)[to + k := Live (ys ! k)])
           \<and> next_id h' = next_id h1 \<and> ctor_calls h' = Suc (ctor_calls h1)"
      using nt la lb kn n live [OF kn] by (intro construct_copy_ok) simp_all
    then obtain h' where h': "construct_copy env (b, int (to + k)) (a, int (so + k)) h1 = Inr h'"
      "lookup h' = (lookup h1)(b \<mapsto> (?TB k)[to + k := Live (ys ! k)])"
      "next_id h' = next_id h1" "ctor_calls h' = Suc (ctor_calls h1)" by blast
    have tb: "(?TB k)[to + k := Live (ys ! k)] = ?TB (Suc k)"
      by (auto simp: tab_update tab_eq_iff less_Suc_eq)
    have "?P (Suc k) h'"
      using h'(2-4) P by (simp add: tb)
    with h'(1) kn show "\<exists>h'. body ([0..<n] ! k) h1 = Inr h' \<and> ?P (Suc k) h'"
      by (auto simp: body)
  qed
  then show ?thesis by simp
qed

lemma construct_from_same:
  assumes "\<not> throws env (ctor_calls h)" and "lookup h a = Some A"
    and "j < length A" and "A ! j = Live y" and "i < length A" and "i \<noteq> j"
  shows "\<exists>h'. construct_from env (a, int i) (a, int j) h = Inr h'
           \<and> lookup h' = (lookup h)(a \<mapsto> A[j := Live (residue env y), i := Live y])
           \<and> next_id h' = next_id h \<and> ctor_calls h' = Suc (ctor_calls h)"
proof -
  let ?h1 = "h\<lparr>ctor_calls := Suc (ctor_calls h)\<rparr>"
  let ?h2 = "if uses_move env then poke ?h1 (a, int j) (Live (moved_from env y)) else ?h1"
  have pk: "peek h (a, int j) = Some (Live y)"
    using assms(3,4) by (simp add: peek_block [OF assms(2)])
  have l1a: "lookup ?h1 a = Some A"
    using assms(2) by simp
  have Aj: "A[j := Live y] = A" using assms(4) by (metis list_update_id)
  have l2: "lookup ?h2 = (lookup h)(a \<mapsto> A[j := Live (residue env y)])"
    using assms(2) by (auto simp: poke_block [OF l1a] residue_def Aj fun_eq_iff)
  have n2: "next_id ?h2 = next_id h" "ctor_calls ?h2 = Suc (ctor_calls h)"
    by simp_all
  have l2a: "lookup ?h2 a = Some (A[j := Live (residue env y)])"
    using l2 by simp
  have pk2: "peek ?h2 (a, int i) = Some (A[j := Live (residue env y)] ! i)"
    using assms(5) by (simp add: peek_block [OF l2a])
  have "construct_from env (a, int i) (a, int j) h = Inr (poke ?h2 (a, int i) (Live y))"
    using assms(1) pk pk2 by (simp add: construct_from_def Let_def)
  moreover have "lookup (poke ?h2 (a, int i) (Live y))
      = (lookup h)(a \<mapsto> A[j := Live (residue env y), i := Live y])"
    by (simp add: poke_block [OF l2a] l2)
  moreover have "next_id (poke ?h2 (a, int i) (Live y)) = next_id h"
    "ctor_calls (poke ?h2 (a, int i) (Live y)) = Suc (ctor_calls h)"
    using n2 by (simp_all del: next_id_poke ctor_calls_poke add: next_id_poke [of ?h2] ctor_calls_poke [of ?h2])
  ultimately show ?thesis by blast
qed

text \<open>One step of a shifting loop: the element of slot \<open>j\<close> goes to slot \<open>i\<close> of the same block, and slot \<open>j\<close> is destroyed.\<close>

lemma shift_step:
  assumes "\<not> throws env (ctor_calls h)" and "lookup h a = Some A"
    and "j < length A" and "A ! j = Live y" and "i < length A" and "i \<noteq> j"
  shows "\<exists>h'. (case construct_from env (a, int i) (a, int j) h of
                 Inl e \<Rightarrow> Inl e
               | Inr h' \<Rightarrow> (case destroy_at (a, int j) h' of
                              None \<Rightarrow> Inl UB
                            | Some h'' \<Rightarrow> Inr h'')) = Inr h'
           \<and> lookup h' = (lookup h)(a \<mapsto> A[j := Raw, i := Live y])
           \<and> next_id h' = next_id h \<and> ctor_calls h' = Suc (ctor_calls h)"
proof -
  from construct_from_same [OF assms]
  obtain h1 where h1: "construct_from env (a, int i) (a, int j) h = Inr h1"
    "lookup h1 = (lookup h)(a \<mapsto> A[j := Live (residue env y), i := Live y])"
    "next_id h1 = next_id h" "ctor_calls h1 = Suc (ctor_calls h)" by blast
  let ?A1 = "A[j := Live (residue env y), i := Live y]"
  have l1: "lookup h1 a = Some ?A1" using h1(2) by simp
  have pk: "peek h1 (a, int j) = Some (Live (residue env y))"
    using assms(3,6) by (simp add: peek_block [OF l1])
  have d: "destroy_at (a, int j) h1 = Some (poke h1 (a, int j) Raw)"
    by (simp add: destroy_at_def pk)
  have "?A1[j := Raw] = A[j := Raw, i := Live y]"
    using assms(6) by (simp add: list_update_swap [of j i])
  then have "lookup (poke h1 (a, int j) Raw) = (lookup h)(a \<mapsto> A[j := Raw, i := Live y])"
    by (simp add: poke_block [OF l1] h1(2))
  with h1 d show ?thesis by simp
qed

lemma shifted_step:
  assumes "0 < m" "m \<le> n" "0 < c" "n + c \<le> L"
  shows "(tab L (\<lambda>j. if j < m then Live (xs ! j) else if j < m + c then Raw
                      else if j < n + c then Live (xs ! (j - c)) else Raw))
           [m - 1 := Raw, m + c - 1 := Live (xs ! (m - 1))]
         = tab L (\<lambda>j. if j < m - 1 then Live (xs ! j) else if j < m - 1 + c then Raw
                      else if j < n + c then Live (xs ! (j - c)) else Raw)"
proof -
  have "\<And>j. j < L \<Longrightarrow>
      ((\<lambda>j. if j < m then Live (xs ! j) else if j < m + c then Raw
                      else if j < n + c then Live (xs ! (j - c)) else Raw)
          (m - 1 := Raw, m + c - 1 := Live (xs ! (m - 1)))) j
      = (if j < m - 1 then Live (xs ! j) else if j < m - 1 + c then Raw
                      else if j < n + c then Live (xs ! (j - c)) else Raw)"
  proof -
    fix j assume "j < L"
    consider "j = m + c - 1" | "j = m - 1" | "j < m - 1" | "m \<le> j" "j < m + c - 1" | "m + c \<le> j"
      by linarith
    then show "((\<lambda>j. if j < m then Live (xs ! j) else if j < m + c then Raw
                      else if j < n + c then Live (xs ! (j - c)) else Raw)
          (m - 1 := Raw, m + c - 1 := Live (xs ! (m - 1)))) j
      = (if j < m - 1 then Live (xs ! j) else if j < m - 1 + c then Raw
                      else if j < n + c then Live (xs ! (j - c)) else Raw)"
    proof cases
      case 1
      have "\<not> j < m - 1" "\<not> j < m - 1 + c" "j < n + c" "j - c = m - 1"
        using 1 assms by linarith+
      with 1 show ?thesis by simp
    next
      case 2
      have "j \<noteq> m + c - 1" "\<not> j < m - 1" "j < m - 1 + c"
        using 2 assms by linarith+
      with 2 show ?thesis by simp
    next
      case 3
      have "j \<noteq> m + c - 1" "j \<noteq> m - 1" "j < m"
        using 3 assms by linarith+
      with 3 show ?thesis by simp
    next
      case 4
      have "j \<noteq> m + c - 1" "j \<noteq> m - 1" "\<not> j < m" "j < m + c" "\<not> j < m - 1" "j < m - 1 + c"
        using 4 assms by linarith+
      then show ?thesis by simp
    next
      case 5
      have "j \<noteq> m + c - 1" "j \<noteq> m - 1" "\<not> j < m" "\<not> j < m + c" "\<not> j < m - 1"
        "\<not> j < m - 1 + c"
        using 5 assms by linarith+
      then show ?thesis by simp
    qed
  qed
  then show ?thesis
    by (simp only: tab_update tab_eq_iff) blast
qed

lemma shift_loop:
  assumes nt: "\<forall>k. \<not> throws env k"
    and A: "lookup h a = Some (tab L (\<lambda>j. if j < n then Live (xs ! j) else Raw))"
    and len: "n + c \<le> L" and c: "0 < c" and p: "p \<le> n"
    and body: "\<And>i h. p < i \<Longrightarrow> i \<le> n \<Longrightarrow>
        body i h = (case construct_from env (a, int (i + c - 1)) (a, int (i - 1)) h of
                      Inl e \<Rightarrow> Inl e
                    | Inr h' \<Rightarrow> (case destroy_at (a, int (i - 1)) h' of
                                   None \<Rightarrow> Inl UB
                                 | Some h'' \<Rightarrow> Inr h''))"
  shows "\<exists>h'. for_each body (rev [Suc p..<Suc n]) h = Inr h'
           \<and> lookup h' = (lookup h)
                (a \<mapsto> tab L (\<lambda>j. if j < p then Live (xs ! j) else if j < p + c then Raw
                                  else if j < n + c then Live (xs ! (j - c)) else Raw))
           \<and> next_id h' = next_id h \<and> ctor_calls h' = ctor_calls h + (n - p)"
proof -
  let ?T = "\<lambda>m. tab L (\<lambda>j. if j < m then Live (xs ! j) else if j < m + c then Raw
                            else if j < n + c then Live (xs ! (j - c)) else Raw)"
  let ?P = "\<lambda>k h'. lookup h' = (lookup h)(a \<mapsto> ?T (n - k))
              \<and> next_id h' = next_id h \<and> ctor_calls h' = ctor_calls h + k"
  let ?is = "rev [Suc p..<Suc n]"
  have lis: "length ?is = n - p" by (simp del: upt_Suc)
  have "\<exists>h'. for_each body ?is h = Inr h' \<and> ?P (length ?is) h'"
  proof (rule for_each_rule [where P = ?P])
    have t0: "?T (n - 0) = tab L (\<lambda>j. if j < n then Live (xs ! j) else Raw)"
      by (auto simp: tab_eq_iff)
    show "?P (0::nat) h" unfolding t0 using A by (auto simp: fun_eq_iff)
  next
    fix k h1 assume k: "k < length ?is" and P: "?P k h1"
    from k have kn: "k < n - p" by (simp only: lis)
    define m where "m = n - k"
    have m: "p < m" "m \<le> n" "0 < m" using kn by (simp_all add: m_def)
    have m1: "n - Suc k = m - 1" by (simp add: m_def)
    have idx: "?is ! k = m"
      using kn by (simp add: rev_nth m_def del: upt_Suc)
    have l1: "lookup h1 a = Some (?T m)" using P unfolding m_def by simp
    have lt: "m - 1 < L" "m + c - 1 < L" "m + c - 1 \<noteq> m - 1"
      using m len c by simp_all
    have lv: "?T m ! (m - 1) = Live (xs ! (m - 1))"
      using m(3) lt(1) by simp
    have "\<exists>h'. (case construct_from env (a, int (m + c - 1)) (a, int (m - 1)) h1 of
                 Inl e \<Rightarrow> Inl e
               | Inr h' \<Rightarrow> (case destroy_at (a, int (m - 1)) h' of
                              None \<Rightarrow> Inl UB
                            | Some h'' \<Rightarrow> Inr h'')) = Inr h'
           \<and> lookup h' = (lookup h1)(a \<mapsto> (?T m)[m - 1 := Raw, m + c - 1 := Live (xs ! (m - 1))])
           \<and> next_id h' = next_id h1 \<and> ctor_calls h' = Suc (ctor_calls h1)"
    proof (rule shift_step)
      show "\<not> throws env (ctor_calls h1)" using nt by simp
      show "lookup h1 a = Some (?T m)" by (rule l1)
      show "m - 1 < length (?T m)" using lt(1) by simp
      show "?T m ! (m - 1) = Live (xs ! (m - 1))" by (rule lv)
      show "m + c - 1 < length (?T m)" using lt(2) by simp
      show "m + c - 1 \<noteq> m - 1" by (rule lt(3))
    qed
    then obtain h' where h': "body m h1 = Inr h'"
      "lookup h' = (lookup h1)(a \<mapsto> (?T m)[m - 1 := Raw, m + c - 1 := Live (xs ! (m - 1))])"
      "next_id h' = next_id h1" "ctor_calls h' = Suc (ctor_calls h1)"
      using body [OF m(1,2)] by auto
    have t: "(?T m)[m - 1 := Raw, m + c - 1 := Live (xs ! (m - 1))] = ?T (m - 1)"
      using m(3,2) c len by (rule shifted_step)
    have "lookup h' = (lookup h)(a \<mapsto> ?T (m - 1))"
      using h'(2) P unfolding t by simp
    then have "?P (Suc k) h'"
      using h'(3,4) P unfolding m1 by simp
    with h'(1) show "\<exists>h'. body (?is ! k) h1 = Inr h' \<and> ?P (Suc k) h'"
      by (auto simp only: idx)
  qed
  then obtain h' where r: "for_each body ?is h = Inr h'" and P: "?P (n - p) h'"
    by (auto simp only: lis)
  have np: "n - (n - p) = p" using p by simp
  from P have "lookup h' = (lookup h)
                (a \<mapsto> tab L (\<lambda>j. if j < p then Live (xs ! j) else if j < p + c then Raw
                                  else if j < n + c then Live (xs ! (j - c)) else Raw))"
    "next_id h' = next_id h" "ctor_calls h' = ctor_calls h + (n - p)"
    unfolding np by simp_all
  with r show ?thesis by blast
qed

lemma owned_block_tab:
  assumes "length xs = n" "n \<le> L"
  shows "map Live xs @ replicate (L - n) Raw = tab L (\<lambda>j. if j < n then Live (xs ! j) else Raw)"
  using assms by (auto simp: list_eq_iff_nth_eq nth_append)

lemma gap_filled:
  assumes xs: "length xs = n" and sub: "length sub = c" and p: "p \<le> n" and L: "n + c \<le> L"
  shows "tab L (\<lambda>j. if p \<le> j \<and> j < p + c then Live (sub ! (j - p))
                     else tab L (\<lambda>j. if j < p then Live (xs ! j) else if j < p + c then Raw
                                      else if j < n + c then Live (xs ! (j - c)) else Raw) ! j)
         = map Live (take p xs @ sub @ drop p xs) @ replicate (L - (n + c)) Raw"
    (is "?lhs = ?rhs")
proof (rule nth_equalityI)
  show "length ?lhs = length ?rhs" using assms by simp
next
  fix j assume "j < length ?lhs"
  then have j: "j < L" by simp
  consider "j < p" | "p \<le> j" "j < p + c" | "p + c \<le> j" "j < n + c" | "n + c \<le> j"
    by linarith
  then show "?lhs ! j = ?rhs ! j"
  proof cases
    case 1
    then have "?rhs ! j = Live (xs ! j)"
      using assms by (simp add: nth_append)
    with 1 j show ?thesis by simp
  next
    case 2
    have a: "\<not> j < p" "j - p < c"
      using 2 by linarith+
    have "?rhs ! j = Live (sub ! (j - p))"
      using 2 assms a by (simp add: nth_append)
    with 2 j show ?thesis by simp
  next
    case 3
    have a: "\<not> j < p" "\<not> j < p + c" "j - p - c < n - p" "p + (j - p - c) = j - c"
      "\<not> j - p < c" "j - (p + c) < n - p" "p + (j - (p + c)) = j - c"
      using 3 assms by linarith+
    have "?rhs ! j = Live (xs ! (j - c))"
      using 3 assms a by (simp add: nth_append)
    with 3 a j show ?thesis by simp
  next
    case 4
    have a: "\<not> j < p" "\<not> j < p + c" "\<not> j < n + c" "\<not> j < n" 
      "\<not> j - p - c < n - p" "\<not> j - p < c"
      using 4 assms by linarith+
    have "?rhs ! j = Raw"
      using 4 assms a j by (simp add: nth_append)
    with 4 a j show ?thesis by simp
  qed
qed

lemma open_gap_fill:
  assumes nt: "\<forall>k. \<not> throws env k" and at: "a \<noteq> t"
    and A: "lookup h a = Some (map Live xs @ replicate (L - n) Raw)"
    and xs: "length xs = n" and L: "n + c \<le> L"
    and T: "lookup h t = Some T" and cT: "c \<le> length T" and sub: "length sub = c"
    and live: "\<And>i. i < c \<Longrightarrow> T ! i = Live (sub ! i)"
    and c: "0 < c" and p: "p \<le> n"
    and shift: "\<And>i h. p < i \<Longrightarrow> i \<le> n \<Longrightarrow>
        shift i h = (case construct_from env (a, int (i + c - 1)) (a, int (i - 1)) h of
                      Inl e \<Rightarrow> Inl e
                    | Inr h' \<Rightarrow> (case destroy_at (a, int (i - 1)) h' of
                                   None \<Rightarrow> Inl UB
                                 | Some h'' \<Rightarrow> Inr h''))"
    and fill: "\<And>i h. i < c \<Longrightarrow>
        fill i h = construct_copy env (a, int (p + i)) (t, int (0 + i)) h"
  shows "\<exists>h2 h3. for_each shift (rev [Suc p..<Suc n]) h = Inr h2
           \<and> for_each fill [0..<c] h2 = Inr h3
           \<and> lookup h3 = (lookup h)
                (a \<mapsto> map Live (take p xs @ sub @ drop p xs) @ replicate (L - (n + c)) Raw)
           \<and> next_id h3 = next_id h"
proof -
  let ?S = "tab L (\<lambda>j. if j < p then Live (xs ! j) else if j < p + c then Raw
                                  else if j < n + c then Live (xs ! (j - c)) else Raw)"
  have nL: "n \<le> L" using L by simp
  have A': "lookup h a = Some (tab L (\<lambda>j. if j < n then Live (xs ! j) else Raw))"
    using A owned_block_tab [OF xs nL] by simp
  from shift_loop [OF nt A' L c p shift]
  obtain h2 where s: "for_each shift (rev [Suc p..<Suc n]) h = Inr h2"
    and l2: "lookup h2 = (lookup h)(a \<mapsto> ?S)" and n2: "next_id h2 = next_id h"
    by blast
  have "\<exists>h'. for_each fill [0..<c] h2 = Inr h'
           \<and> lookup h' = (lookup h2)
                (a \<mapsto> tab (length ?S)
                   (\<lambda>j. if p \<le> j \<and> j < p + c then Live (sub ! (j - p)) else ?S ! j))
           \<and> next_id h' = next_id h2 \<and> ctor_calls h' = ctor_calls h2 + c"
  proof (rule copy_loop [OF nt])
    show "t \<noteq> a" using at by simp
    show "lookup h2 t = Some T" using l2 T at by simp
    show "lookup h2 a = Some ?S" using l2 by simp
    show "0 + c \<le> length T" using cT by simp
    show "p + c \<le> length ?S" using p L by simp
    show "length sub = c" by (rule sub)
    show "\<And>j. j < c \<Longrightarrow> T ! (0 + j) = Live (sub ! j)" using live by simp
    show "\<And>i h. i < c \<Longrightarrow> fill i h = construct_copy env (a, int (p + i)) (t, int (0 + i)) h"
      by (rule fill)
  qed
  then obtain h3 where f: "for_each fill [0..<c] h2 = Inr h3"
    and l3: "lookup h3 = (lookup h2)
                (a \<mapsto> tab (length ?S)
                   (\<lambda>j. if p \<le> j \<and> j < p + c then Live (sub ! (j - p)) else ?S ! j))"
    and n3: "next_id h3 = next_id h2" by blast
  have "lookup h3 = (lookup h)
                (a \<mapsto> map Live (take p xs @ sub @ drop p xs) @ replicate (L - (n + c)) Raw)"
    using l3 l2 gap_filled [OF xs sub p L] by simp
  with s f n2 n3 show ?thesis by simp
qed

lemma insert_tail_unfold:
  assumes g: "(if sz v + count > cap v
               then reserve env (max (cap v * 2) (sz v + count)) (h, v)
               else Inr (h, v)) = Inr (h1, v1)"
    and sh: "for_each
               (\<lambda>i h. case construct_from env
                              (ptr_add (arr v1) (int i + uint count - 1))
                              (ptr_add (arr v1) (int i - 1)) h of
                         Inl e \<Rightarrow> Inl e
                       | Inr h' \<Rightarrow>
                           (case destroy_at (ptr_add (arr v1) (int i - 1)) h' of
                              None \<Rightarrow> Inl UB
                            | Some h'' \<Rightarrow> Inr h''))
               (rev [Suc (unat index)..<Suc (unat (sz v1))]) h1 = Inr h2"
    and fl: "for_each (\<lambda>i. fill i (ptr_add (arr v1) (uint index + int i)))
               [0..<unat count] h2 = Inr h3"
  shows "insert_tail env index count fill (h, v) =
           Inr (ptr_add (begin_v v1) (sint index), h3, v1\<lparr>sz := sz v1 + count\<rparr>)"
  unfolding insert_tail_def
  by (simp only: prod.case g sum.case sh fl)

lemma unat_max: "unat (max a b) = max (unat a) (unat (b :: 'a::len word))"
  by (simp add: max_def word_le_nat_alt)

lemma heap_ok_same_keys:
  assumes "heap_ok h" and "next_id h' = next_id h"
    and "\<And>b blk. lookup h' b = Some blk \<Longrightarrow> \<exists>blk0. lookup h b = Some blk0"
  shows "heap_ok h'"
proof (rule heap_okI)
  show "0 < next_id h'" using assms(1,2) heap_ok_next by simp
  fix b blk assume "lookup h' b = Some blk"
  from assms(3) [OF this] obtain blk0 where "lookup h b = Some blk0" by blast
  from heap_ok_lookup [OF assms(1) this] assms(2) show "0 < b \<and> b < next_id h'" by simp
qed

lemma heap_ok_fresh_key:
  assumes "heap_ok h" and "next_id h' = Suc (next_id h)"
    and "\<And>b blk. lookup h' b = Some blk \<Longrightarrow> b = next_id h \<or> (\<exists>blk0. lookup h b = Some blk0)"
  shows "heap_ok h'"
proof (rule heap_okI)
  show "0 < next_id h'" using assms(2) by simp
  fix b blk assume "lookup h' b = Some blk"
  from assms(3) [OF this] show "0 < b \<and> b < next_id h'"
  proof
    assume "b = next_id h"
    then show ?thesis using assms(1,2) heap_ok_next by simp
  next
    assume "\<exists>blk0. lookup h b = Some blk0"
    then obtain blk0 where "lookup h b = Some blk0" by blast
    from heap_ok_lookup [OF assms(1) this] assms(2) show ?thesis by simp
  qed
qed

text \<open>The first step of an insertion of \<open>count\<close> elements: the block is replaced when it is too small.\<close>

lemma grow_for_insert:
  assumes ok: "heap_ok h" and ow: "owns h v xs" and nt: "\<forall>k. \<not> throws env k"
    and ca: "\<forall>n. can_alloc env n"
    and T: "lookup h t = Some T" and ta: "t \<noteq> fst (arr v)"
    and c: "0 < unat count" and bound: "length xs + unat count < 2 ^ 64"
  shows "\<exists>h1 v1. (if sz v + count > cap v
                   then reserve env (max (cap v * 2) (sz v + count)) (h, v)
                   else Inr (h, v)) = Inr (h1, v1)
           \<and> heap_ok h1 \<and> owns h1 v1 xs \<and> lookup h1 t = Some T \<and> t \<noteq> fst (arr v1)
           \<and> length xs + unat count \<le> unat (cap v1) \<and> sz v1 = sz v \<and> arr v1 \<noteq> nullptr"
proof -
  have len: "length xs = unat (sz v)" using ow by (simp add: owns_def)
  have "unat (sz v) + unat count < 2 ^ LENGTH(64)" using bound len by simp
  then have sum: "unat (sz v + count) = unat (sz v) + unat count"
    by (simp only: unat_add_lem)
  show ?thesis
  proof (cases "sz v + count > cap v")
    case True
    let ?newcap = "max (cap v * 2) (sz v + count)"
    have fit: "unat (sz v) + unat count \<le> unat ?newcap"
      using sum by (simp add: unat_max)
    then have fit': "unat (sz v) \<le> unat ?newcap" by simp
    from reserve_ok [OF ok ow nt ca [rule_format] fit']
    obtain h1 where r: "reserve env ?newcap (h, v) = Inr (h1, v\<lparr>arr := (next_id h, 0), cap := ?newcap\<rparr>)"
      and l1: "lookup h1 = (lookup h)
                (fst (arr v) := None,
                 next_id h \<mapsto> map Live xs @ replicate (unat ?newcap - unat (sz v)) Raw)"
      and n1: "next_id h1 = Suc (next_id h)" by blast
    let ?v1 = "v\<lparr>arr := (next_id h, 0), cap := ?newcap\<rparr>"
    have tn: "t < next_id h" "0 < t" using heap_ok_lookup [OF ok T] by simp_all
    have 1: "heap_ok h1"
    proof (rule heap_ok_fresh_key [OF ok n1])
      fix b blk assume "lookup h1 b = Some blk"
      then show "b = next_id h \<or> (\<exists>blk0. lookup h b = Some blk0)"
        using l1 by (auto split: if_splits)
    qed
    have 2: "owns h1 ?v1 xs"
      using len fit' heap_ok_next [OF ok] by (simp add: owns_def l1 nullptr_def)
    have 3: "lookup h1 t = Some T" using l1 T ta tn by simp
    have 4: "t \<noteq> fst (arr ?v1)" using tn by simp
    have 5: "arr ?v1 \<noteq> nullptr" using heap_ok_next [OF ok] by (simp add: nullptr_def)
    from True r 1 2 3 4 5 fit len show ?thesis by auto
  next
    case False
    then have le: "unat (sz v) + unat count \<le> unat (cap v)"
      using sum by (simp add: word_less_nat_alt)
    have "cap v \<noteq> 0" using le c by (auto simp: unat_eq_0)
    then have "arr v \<noteq> nullptr" using owns_null(2) [OF ow] by auto
    with False ok ow T ta le len show ?thesis by auto
  qed
qed

lemma insert_tail_ok:
  assumes ok: "heap_ok h" and ow: "owns h v xs" and nt: "\<forall>k. \<not> throws env k"
    and ca: "\<forall>n. can_alloc env n"
    and T: "lookup h t = Some T" and ta: "t \<noteq> fst (arr v)"
    and cT: "c \<le> length T" and sub: "length sub = c"
    and live: "\<And>i. i < c \<Longrightarrow> T ! i = Live (sub ! i)"
    and c: "0 < c" and p: "p \<le> length xs" and bound: "length xs + c < 2 ^ 64"
    and index: "unat index = p" and count: "unat count = c"
    and fill: "\<And>i q hh. fill i q hh = construct_copy env q (t, int i) hh"
  shows "\<exists>it h' v'. insert_tail env index count fill (h, v) = Inr (it, h', v')
           \<and> heap_ok h' \<and> owns h' v' (take p xs @ sub @ drop p xs)
           \<and> lookup h' t = Some T \<and> t \<noteq> fst (arr v')"
proof -
  from grow_for_insert [OF ok ow nt ca T ta, of count] c bound count
  obtain h1 v1 where g: "(if sz v + count > cap v
                   then reserve env (max (cap v * 2) (sz v + count)) (h, v)
                   else Inr (h, v)) = Inr (h1, v1)"
    and ok1: "heap_ok h1" and ow1: "owns h1 v1 xs" and T1: "lookup h1 t = Some T"
    and ta1: "t \<noteq> fst (arr v1)" and room: "length xs + c \<le> unat (cap v1)"
    and sz1: "sz v1 = sz v" and nn: "arr v1 \<noteq> nullptr"
    by auto
  let ?a = "fst (arr v1)" and ?n = "length xs" and ?L = "unat (cap v1)"
  note o = owns_block [OF ow1 nn]
  have av: "arr v1 = (?a, 0)" using o(1) by (simp add: prod_eq_iff)
  have uc: "uint count = int c" using count by (simp only: uint_nat)
  have ui: "uint index = int p" using index by (simp only: uint_nat)
  let ?shift = "\<lambda>i h. case construct_from env
                              (ptr_add (arr v1) (int i + uint count - 1))
                              (ptr_add (arr v1) (int i - 1)) h of
                         Inl e \<Rightarrow> Inl e
                       | Inr h' \<Rightarrow>
                           (case destroy_at (ptr_add (arr v1) (int i - 1)) h' of
                              None \<Rightarrow> Inl UB
                            | Some h'' \<Rightarrow> Inr h'')"
  let ?fill = "\<lambda>i. fill i (ptr_add (arr v1) (uint index + int i))"
  have "\<exists>h2 h3. for_each ?shift (rev [Suc p..<Suc ?n]) h1 = Inr h2
           \<and> for_each ?fill [0..<c] h2 = Inr h3
           \<and> lookup h3 = (lookup h1)
                (?a \<mapsto> map Live (take p xs @ sub @ drop p xs) @ replicate (?L - (?n + c)) Raw)
           \<and> next_id h3 = next_id h1"
  proof (rule open_gap_fill [OF nt])
    show "?a \<noteq> t" using ta1 by simp
    show "lookup h1 ?a = Some (map Live xs @ replicate (?L - ?n) Raw)"
      using o(2,3) by simp
    show "length xs = ?n" by simp
    show "?n + c \<le> ?L" by (rule room)
    show "lookup h1 t = Some T" by (rule T1)
    show "c \<le> length T" by (rule cT)
    show "length sub = c" by (rule sub)
    show "\<And>i. i < c \<Longrightarrow> T ! i = Live (sub ! i)" by (rule live)
    show "0 < c" by (rule c)
    show "p \<le> ?n" by (rule p)
  next
    fix i hh assume i: "p < i" "i \<le> ?n"
    have e1: "ptr_add (arr v1) (int i + uint count - 1) = (?a, int (i + c - 1))"
      using i c o(1) by (simp add: ptr_add_def uc prod_eq_iff)
    have e2: "ptr_add (arr v1) (int i - 1) = (?a, int (i - 1))"
      using i o(1) by (simp add: ptr_add_def prod_eq_iff)
    show "?shift i hh = (case construct_from env (?a, int (i + c - 1)) (?a, int (i - 1)) hh of
                      Inl e \<Rightarrow> Inl e
                    | Inr h' \<Rightarrow> (case destroy_at (?a, int (i - 1)) h' of
                                   None \<Rightarrow> Inl UB
                                 | Some h'' \<Rightarrow> Inr h''))"
      by (simp only: e1 e2)
  next
    fix i hh assume "i < c"
    have e: "ptr_add (arr v1) (uint index + int i) = (?a, int (p + i))"
      using o(1) by (simp add: ptr_add_def ui prod_eq_iff)
    show "?fill i hh = construct_copy env (?a, int (p + i)) (t, int (0 + i)) hh"
      by (simp only: e fill) simp
  qed
  then obtain h2 h3 where sh: "for_each ?shift (rev [Suc p..<Suc ?n]) h1 = Inr h2"
    and fl: "for_each ?fill [0..<c] h2 = Inr h3"
    and l3: "lookup h3 = (lookup h1)
                (?a \<mapsto> map Live (take p xs @ sub @ drop p xs) @ replicate (?L - (?n + c)) Raw)"
    and n3: "next_id h3 = next_id h1" by blast
  have len1: "?n = unat (sz v1)" by (rule o(3))
  have sh': "for_each ?shift (rev [Suc (unat index)..<Suc (unat (sz v1))]) h1 = Inr h2"
    using sh by (simp only: index len1)
  have fl': "for_each ?fill [0..<unat count] h2 = Inr h3"
    using fl by (simp only: count)
  let ?v' = "v1\<lparr>sz := sz v1 + count\<rparr>"
  have res: "insert_tail env index count fill (h, v) =
           Inr (ptr_add (begin_v v1) (sint index), h3, ?v')"
    using g sh' fl' by (rule insert_tail_unfold)
  have "unat (sz v1) + unat count < 2 ^ LENGTH(64)" using bound len1 count by simp
  then have "unat (sz v1 + count) = unat (sz v1) + unat count"
    by (simp only: unat_add_lem)
  then have sum: "unat (sz v1 + count) = ?n + c"
    using len1 count by simp
  have ow': "owns h3 ?v' (take p xs @ sub @ drop p xs)"
    using nn o(1) p sub room by (simp add: owns_def sum l3 min_def)
  have ok': "heap_ok h3"
  proof (rule heap_ok_same_keys [OF ok1 n3])
    fix b blk assume "lookup h3 b = Some blk"
    then show "\<exists>blk0. lookup h1 b = Some blk0"
      using l3 o(2) by (cases "b = ?a") auto
  qed
  have T3: "lookup h3 t = Some T" using l3 T1 ta1 by simp
  have "t \<noteq> fst (arr ?v')" using ta1 by simp
  with res ow' ok' T3 show ?thesis by blast
qed

lemma vector_range_unfold:
  assumes d: "ptr_diff last_it first = Some d"
    and al: "allocate env (unat (word_of_int d :: size_type)) h = Some (a, h0)"
    and nn: "\<not> d < 0"
    and lp: "for_each (\<lambda>index. construct_copy env (ptr_add a (int index))
                                   (ptr_add first (int index))) [0..<nat d] h0 = Inr h1"
  shows "vector_range env first last_it h =
           Inr (h1, \<lparr>arr = a, sz = of_nat (nat d), cap = word_of_int d\<rparr>)"
  unfolding vector_range_def Let_def
  by (simp only: d option.case al prod.case eq_False [THEN iffD2, OF nn] if_False lp sum.case)

lemma unat_of_nat_64: "c < 2 ^ 64 \<Longrightarrow> unat (of_nat c :: size_type) = c"
  by (simp add: unat_of_nat)

lemma vector_range_ok:
  assumes ok: "heap_ok h" and nt: "\<forall>k. \<not> throws env k" and ca: "\<forall>n. can_alloc env n"
    and A: "lookup h a = Some A" and fc: "f + c \<le> length A"
    and live: "\<And>i. i < c \<Longrightarrow> A ! (f + i) = Live (sub ! i)"
    and sub: "length sub = c" and c: "c < 2 ^ 64"
  shows "\<exists>h'. vector_range env (a, int f) (a, int (f + c)) h =
                 Inr (h', \<lparr>arr = (next_id h, 0), sz = of_nat c, cap = of_nat c\<rparr>)
           \<and> lookup h' = (lookup h)(next_id h \<mapsto> map Live sub)
           \<and> next_id h' = Suc (next_id h)"
proof -
  let ?t = "next_id h"
  have d: "ptr_diff (a, int (f + c)) (a, int f) = Some (int c)"
    by (simp add: ptr_diff_def)
  have w: "(word_of_int (int c) :: size_type) = of_nat c" by simp
  have uc: "unat (of_nat c :: size_type) = c" using c by (rule unat_of_nat_64)
  obtain h0 where al: "allocate env c h = Some ((?t, 0), h0)"
    and l0: "lookup h0 = (lookup h)(?t \<mapsto> replicate c Raw)"
    and n0: "next_id h0 = Suc ?t"
    using ca by (auto simp: allocate_def lookup_def fun_eq_iff)
  have at: "a \<noteq> ?t" using heap_ok_lookup [OF ok A] by simp
  let ?body = "\<lambda>index. construct_copy env (ptr_add (?t, 0) (int index))
                                   (ptr_add (a, int f) (int index))"
  have "\<exists>h'. for_each ?body [0..<c] h0 = Inr h'
           \<and> lookup h' = (lookup h0)
                (?t \<mapsto> tab (length (replicate c (Raw :: 'a slot)))
                   (\<lambda>j. if 0 \<le> j \<and> j < 0 + c then Live (sub ! (j - 0)) else replicate c Raw ! j))
           \<and> next_id h' = next_id h0 \<and> ctor_calls h' = ctor_calls h0 + c"
  proof (rule copy_loop [OF nt at])
    show "lookup h0 a = Some A" using l0 A at by simp
    show "lookup h0 ?t = Some (replicate c Raw)" using l0 by simp
    show "f + c \<le> length A" by (rule fc)
    show "0 + c \<le> length (replicate c (Raw :: 'a slot))" by simp
    show "length sub = c" by (rule sub)
    show "\<And>j. j < c \<Longrightarrow> A ! (f + j) = Live (sub ! j)" by (rule live)
    show "\<And>i h. i < c \<Longrightarrow> ?body i h = construct_copy env (?t, int (0 + i)) (a, int (f + i)) h"
      by (simp add: ptr_add_def)
  qed
  then obtain h1 where lp: "for_each ?body [0..<c] h0 = Inr h1"
    and l1: "lookup h1 = (lookup h0)
                (?t \<mapsto> tab (length (replicate c (Raw :: 'a slot)))
                   (\<lambda>j. if 0 \<le> j \<and> j < 0 + c then Live (sub ! (j - 0)) else replicate c Raw ! j))"
    and n1: "next_id h1 = next_id h0" by blast
  have blk: "tab (length (replicate c (Raw :: 'a slot)))
                   (\<lambda>j. if 0 \<le> j \<and> j < 0 + c then Live (sub ! (j - 0)) else replicate c Raw ! j)
             = map Live sub"
    using sub by (auto simp: list_eq_iff_nth_eq)
  have al': "allocate env (unat (word_of_int (int c) :: size_type)) h = Some ((?t, 0), h0)"
    using al by (simp only: w uc)
  have lp': "for_each ?body [0..<nat (int c)] h0 = Inr h1"
    using lp by simp
  have nn: "\<not> int c < 0" by simp
  have "vector_range env (a, int f) (a, int (f + c)) h =
           Inr (h1, \<lparr>arr = (?t, 0), sz = of_nat (nat (int c)), cap = word_of_int (int c)\<rparr>)"
    using d al' nn lp' by (rule vector_range_unfold)
  then have "vector_range env (a, int f) (a, int (f + c)) h =
           Inr (h1, \<lparr>arr = (?t, 0), sz = of_nat c, cap = of_nat c\<rparr>)"
    by simp
  moreover have "lookup h1 = (lookup h)(?t \<mapsto> map Live sub)"
    using l1 l0 blk by simp
  ultimately show ?thesis using n1 n0 by simp
qed

lemma destructor_ok:
  assumes T: "lookup h t = Some (map Live sub)" and t: "t \<noteq> 0"
    and sub: "length sub = c" and c: "c < 2 ^ 64"
  shows "\<exists>h'. destructor (h, \<lparr>arr = (t, 0), sz = of_nat c, cap = of_nat c\<rparr>) = Some h'
           \<and> lookup h' = (lookup h)(t := None) \<and> next_id h' = next_id h"
proof -
  let ?temp = "\<lparr>arr = (t, 0), sz = of_nat c, cap = of_nat c\<rparr>"
  have uc: "unat (of_nat c :: size_type) = c" using c by (rule unat_of_nat_64)
  have nn: "arr ?temp \<noteq> nullptr" using t by (simp add: nullptr_def)
  have ow: "owns h ?temp sub"
    using T t sub by (simp add: owns_def uc nullptr_def)
  from clear_owned [OF ow]
  obtain h1 where cl: "clear (h, ?temp) = Some (h1, ?temp\<lparr>sz := 0\<rparr>)"
    and n1: "next_id h1 = next_id h"
    and l1: "lookup h1 = (lookup h)(t \<mapsto> replicate c Raw)"
    using nn by (auto simp: uc)
  have "\<exists>h'. deallocate (t, 0) c h1 = Some h' \<and> lookup h' = (lookup h1)(t := None)
           \<and> next_id h' = next_id h1 \<and> ctor_calls h' = ctor_calls h1"
  proof (rule deallocate_ok)
    show "lookup h1 t = Some (replicate c Raw)" using l1 by simp
    show "length (replicate c (Raw :: 'a slot)) = c" by simp
    show "t \<noteq> 0" by (rule t)
  qed
  then obtain h2 where de: "deallocate (t, 0) c h1 = Some h2"
    and l2: "lookup h2 = (lookup h1)(t := None)" and n2: "next_id h2 = next_id h1" by blast
  have "destructor (h, ?temp) = Some h2"
    using cl de nn by (simp add: destructor_def uc)
  moreover have "lookup h2 = (lookup h)(t := None)" using l2 l1 by simp
  ultimately show ?thesis using n2 n1 by simp
qed

lemma insert_dispatch_alias:
  assumes chk: "\<not> (ptr_less pos (begin_v v) \<or> ptr_less (end_v v) pos)"
    and pd: "ptr_diff last_it first = Some dc" "ptr_diff pos (begin_v v) = Some d"
    and cnt: "(word_of_int dc :: size_type) \<noteq> 0"
    and al: "aliases v first last_it"
    and vr: "vector_range env first last_it h = Inr (h0, temp)"
    and it: "insert_tail env (word_of_int d) (word_of_int dc)
               (\<lambda>i p. construct_copy env p (ptr_add (begin_v temp) (int i))) (h0, v)
             = Inr (it, h1, v1)"
    and ds: "destructor (h1, temp) = Some h2"
  shows "insert_dispatch env pos first last_it (h, v) = Inr (it, h2, v1)"
  unfolding insert_dispatch_def Let_def
  by (simp only: prod.case eq_False [THEN iffD2, OF chk] if_False pd option.case
        eq_False [THEN iffD2, OF cnt] eq_True [THEN iffD2, OF al] if_True vr sum.case it ds)

lemma insert_dispatch_nothing:
  assumes chk: "\<not> (ptr_less pos (begin_v v) \<or> ptr_less (end_v v) pos)"
    and pd: "ptr_diff last_it first = Some dc" "ptr_diff pos (begin_v v) = Some d"
    and cnt: "(word_of_int dc :: size_type) = 0"
  shows "insert_dispatch env pos first last_it (h, v)
         = Inr (ptr_add (begin_v v) (sint (word_of_int d :: size_type)), h, v)"
  unfolding insert_dispatch_def Let_def
  by (simp only: prod.case eq_False [THEN iffD2, OF chk] if_False pd option.case
        eq_True [THEN iffD2, OF cnt] if_True)

section \<open>Erasing a range\<close>

text \<open>
  \<^verbatim>\<open>erase(first, last)\<close> on a well-formed container, for a range \<open>[i, j)\<close> that is not
  empty or that is the empty range at \<^verbatim>\<open>end()\<close>: the slots \<open>i..<j\<close> are destroyed, the tail
  moves down slot by slot, and the container holds the sequence without \<open>[i, j)\<close> in the same
  block.
\<close>

lemma erased_step:
  assumes "i < j" "j + k < n" "n \<le> L"
  shows "(tab L (\<lambda>q. if q < i then Live (xs ! q)
                      else if q < i + k then Live (xs ! (q + (j - i)))
                      else if q < j + k then Raw
                      else if q < n then Live (xs ! q) else Raw))
           [j + k := Raw, i + k := Live (xs ! (j + k))]
         = tab L (\<lambda>q. if q < i then Live (xs ! q)
                      else if q < i + Suc k then Live (xs ! (q + (j - i)))
                      else if q < j + Suc k then Raw
                      else if q < n then Live (xs ! q) else Raw)"
proof -
  have "\<And>q. q < L \<Longrightarrow>
      ((\<lambda>q. if q < i then Live (xs ! q)
                      else if q < i + k then Live (xs ! (q + (j - i)))
                      else if q < j + k then Raw
                      else if q < n then Live (xs ! q) else Raw)
          (j + k := Raw, i + k := Live (xs ! (j + k)))) q
      = (if q < i then Live (xs ! q)
                      else if q < i + Suc k then Live (xs ! (q + (j - i)))
                      else if q < j + Suc k then Raw
                      else if q < n then Live (xs ! q) else Raw)"
  proof -
    fix q assume "q < L"
    consider "q = i + k" | "q = j + k" | "q < i + k" | "i + k < q" "q < j + k" | "j + k < q"
      by linarith
    then show "((\<lambda>q. if q < i then Live (xs ! q)
                      else if q < i + k then Live (xs ! (q + (j - i)))
                      else if q < j + k then Raw
                      else if q < n then Live (xs ! q) else Raw)
          (j + k := Raw, i + k := Live (xs ! (j + k)))) q
      = (if q < i then Live (xs ! q)
                      else if q < i + Suc k then Live (xs ! (q + (j - i)))
                      else if q < j + Suc k then Raw
                      else if q < n then Live (xs ! q) else Raw)"
    proof cases
      case 1
      have a: "(i + k < i) = False" "(i + k < i + Suc k) = True" "i + k + (j - i) = j + k"
        using assms by simp_all
      show ?thesis
        unfolding fun_upd_apply 1 by (simp only: a if_True if_False refl)
    next
      case 2
      have "q \<noteq> i + k" "\<not> q < i" "\<not> q < i + Suc k" "q < j + Suc k"
        using 2 assms by linarith+
      with 2 show ?thesis by simp
    next
      case 3
      have "q \<noteq> i + k" "q \<noteq> j + k" "q < i + Suc k"
        using 3 assms by linarith+
      with 3 show ?thesis by simp
    next
      case 4
      have "q \<noteq> i + k" "q \<noteq> j + k" "\<not> q < i" "\<not> q < i + k" "\<not> q < i + Suc k"
        "q < j + Suc k"
        using 4 assms by linarith+
      with 4 show ?thesis by simp
    next
      case 5
      have "q \<noteq> i + k" "q \<noteq> j + k" "\<not> q < i" "\<not> q < i + k" "\<not> q < i + Suc k"
        "\<not> q < j + k" "\<not> q < j + Suc k"
        using 5 assms by linarith+
      then show ?thesis by simp
    qed
  qed
  then show ?thesis
    by (simp only: tab_update tab_eq_iff) blast
qed

lemma erase_loop:
  assumes nt: "\<forall>k. \<not> throws env k"
    and A: "lookup h a = Some (tab L (\<lambda>q. if q < i then Live (xs ! q) else if q < j then Raw
                                           else if q < n then Live (xs ! q) else Raw))"
    and ij: "i < j" and jn: "j \<le> n" and nL: "n \<le> L"
    and body: "\<And>q h. j \<le> q \<Longrightarrow> q < n \<Longrightarrow>
        body q h = (case construct_from env (a, int (i + (q - j))) (a, int q) h of
                      Inl e \<Rightarrow> Inl e
                    | Inr h' \<Rightarrow> (case destroy_at (a, int q) h' of
                                   None \<Rightarrow> Inl UB
                                 | Some h'' \<Rightarrow> Inr h''))"
  shows "\<exists>h'. for_each body [j..<n] h = Inr h'
           \<and> lookup h' = (lookup h)
                (a \<mapsto> tab L (\<lambda>q. if q < i then Live (xs ! q)
                                  else if q < i + (n - j) then Live (xs ! (q + (j - i)))
                                  else Raw))
           \<and> next_id h' = next_id h"
proof -
  let ?E = "\<lambda>k. tab L (\<lambda>q. if q < i then Live (xs ! q)
                      else if q < i + k then Live (xs ! (q + (j - i)))
                      else if q < j + k then Raw
                      else if q < n then Live (xs ! q) else Raw)"
  let ?P = "\<lambda>k h'. lookup h' = (lookup h)(a \<mapsto> ?E k) \<and> next_id h' = next_id h"
  have "\<exists>h'. for_each body [j..<n] h = Inr h' \<and> ?P (length [j..<n]) h'"
  proof (rule for_each_rule [where P = ?P])
    have "?E 0 = tab L (\<lambda>q. if q < i then Live (xs ! q) else if q < j then Raw
                                           else if q < n then Live (xs ! q) else Raw)"
      by (auto simp: tab_eq_iff)
    then show "?P 0 h" using A by (auto simp: fun_eq_iff)
  next
    fix k h1 assume k: "k < length [j..<n]" and P: "?P k h1"
    from k have kn: "j + k < n" by simp
    have idx: "[j..<n] ! k = j + k" using kn by simp
    have l1: "lookup h1 a = Some (?E k)" using P by simp
    have lt: "j + k < L" "i + k < L" "i + k \<noteq> j + k" "\<not> j + k < i" "\<not> j + k < i + k"
      using kn nL ij by simp_all
    have lv: "?E k ! (j + k) = Live (xs ! (j + k))"
      using lt kn by simp
    have "\<exists>h'. (case construct_from env (a, int (i + k)) (a, int (j + k)) h1 of
                 Inl e \<Rightarrow> Inl e
               | Inr h' \<Rightarrow> (case destroy_at (a, int (j + k)) h' of
                              None \<Rightarrow> Inl UB
                            | Some h'' \<Rightarrow> Inr h'')) = Inr h'
           \<and> lookup h' = (lookup h1)(a \<mapsto> (?E k)[j + k := Raw, i + k := Live (xs ! (j + k))])
           \<and> next_id h' = next_id h1 \<and> ctor_calls h' = Suc (ctor_calls h1)"
    proof (rule shift_step)
      show "\<not> throws env (ctor_calls h1)" using nt by simp
      show "lookup h1 a = Some (?E k)" by (rule l1)
      show "j + k < length (?E k)" using lt(1) by simp
      show "?E k ! (j + k) = Live (xs ! (j + k))" by (rule lv)
      show "i + k < length (?E k)" using lt(2) by simp
      show "i + k \<noteq> j + k" by (rule lt(3))
    qed
    moreover have "i + (j + k - j) = i + k" by simp
    ultimately obtain h' where h': "body (j + k) h1 = Inr h'"
      "lookup h' = (lookup h1)(a \<mapsto> (?E k)[j + k := Raw, i + k := Live (xs ! (j + k))])"
      "next_id h' = next_id h1"
      using body [of "j + k" h1] kn by auto
    have t: "(?E k)[j + k := Raw, i + k := Live (xs ! (j + k))] = ?E (Suc k)"
      using ij kn nL by (rule erased_step)
    have "?P (Suc k) h'"
      using h'(2,3) P unfolding t by simp
    with h'(1) show "\<exists>h'. body ([j..<n] ! k) h1 = Inr h' \<and> ?P (Suc k) h'"
      by (auto simp only: idx)
  qed
  then obtain h' where r: "for_each body [j..<n] h = Inr h'" and P: "?P (n - j) h'"
    unfolding length_upt by blast
  have "?E (n - j) = tab L (\<lambda>q. if q < i then Live (xs ! q)
                                  else if q < i + (n - j) then Live (xs ! (q + (j - i)))
                                  else Raw)"
    using jn by (auto simp: tab_eq_iff)
  with r P show ?thesis by auto
qed

lemma erased_block:
  assumes "length xs = n" "i \<le> j" "j \<le> n" "n \<le> L"
  shows "tab L (\<lambda>q. if q < i then Live (xs ! q)
                     else if q < i + (n - j) then Live (xs ! (q + (j - i)))
                     else Raw)
         = map Live (take i xs @ drop j xs) @ replicate (L - (n - (j - i))) Raw"
    (is "?lhs = ?rhs")
proof (rule nth_equalityI)
  show "length ?lhs = length ?rhs" using assms by simp
next
  fix q assume "q < length ?lhs"
  then have q: "q < L" by simp
  let ?ys = "take i xs @ drop j xs"
  have ly: "length ?ys = i + (n - j)" using assms by simp
  have lt: "length (take i xs) = i" using assms by simp
  consider "q < i" | "i \<le> q" "q < i + (n - j)" | "i + (n - j) \<le> q"
    by linarith
  then show "?lhs ! q = ?rhs ! q"
  proof cases
    case 1
    have "q < length ?ys" using 1 ly by linarith
    then have "?rhs ! q = Live (?ys ! q)"
      by (simp only: nth_append length_map if_True nth_map)
    also have "?ys ! q = take i xs ! q"
      using 1 lt by (simp only: nth_append if_True)
    also have "\<dots> = xs ! q" using 1 by simp
    finally show ?thesis using 1 q by simp
  next
    case 2
    have a: "\<not> q < i" "j + (q - i) = q + (j - i)" "j + (q - i) \<le> n"
      using 2 assms by linarith+
    have "q < length ?ys" using 2 ly by linarith
    then have "?rhs ! q = Live (?ys ! q)"
      by (simp only: nth_append length_map if_True nth_map)
    also have "?ys ! q = drop j xs ! (q - i)"
      using a(1) lt by (simp only: nth_append if_False)
    also have "\<dots> = xs ! (j + (q - i))"
      using a(3) assms(1) by simp
    finally show ?thesis using 2 a q by simp
  next
    case 3
    have a: "\<not> q < i" "\<not> q < i + (n - j)" "q - (i + (n - j)) < L - (n - (j - i))"
      using 3 assms q by linarith+
    have "\<not> q < length (map Live ?ys)" using a(2) ly by simp
    then have "?rhs ! q = replicate (L - (n - (j - i))) Raw ! (q - length (map Live ?ys))"
      by (simp only: nth_append if_False)
    also have "\<dots> = Raw" using a(3) ly by simp
    finally show ?thesis using a q by simp
  qed
qed

lemma erase_range_unfold:
  assumes chk: "\<not> (ptr_less first (begin_v v) \<or> ptr_less (end_v v) last_it
                    \<or> ptr_less (end_v v) first)"
    and df: "ptr_diff first (begin_v v) = Some df"
    and dl: "ptr_diff last_it (begin_v v) = Some dl"
    and d: "destroy_each (arr v)
              [unat (word_of_int df :: size_type)..<unat (word_of_int dl :: size_type)] h = Some h1"
    and lp: "for_each
               (\<lambda>i h. case construct_from env
                              (ptr_add (arr v)
                                 (int (unat (word_of_int df :: size_type)
                                       + (i - unat (word_of_int dl :: size_type)))))
                              (ptr_add (arr v) (int i)) h of
                         Inl e \<Rightarrow> Inl e
                       | Inr h' \<Rightarrow>
                           (case destroy_at (ptr_add (arr v) (int i)) h' of
                              None \<Rightarrow> Inl UB
                            | Some h'' \<Rightarrow> Inr h''))
               [unat (word_of_int dl :: size_type)..<unat (sz v)] h1 = Inr h2"
  shows "erase_range env first last_it (h, v) =
           Inr (ptr_add (begin_v v)
                  (sint ((word_of_int df :: size_type)
                         + of_nat (unat (sz v) - unat (word_of_int dl :: size_type)))),
                h2, v\<lparr>sz := sz v - (word_of_int dl - word_of_int df)\<rparr>)"
  unfolding erase_range_def Let_def
  by (simp only: prod.case eq_False [THEN iffD2, OF chk] if_False df dl option.case d lp
      sum.case)

lemma erase_range_ok:
  assumes ok: "heap_ok h" and ow: "owns h v xs" and nt: "\<forall>k. \<not> throws env k"
    and ij: "i \<le> j" and jn: "j \<le> length xs" and ne: "i = j \<Longrightarrow> j = length xs"
  shows "\<exists>it h' v'. erase_range env (ptr_add (begin_v v) (int i))
                        (ptr_add (begin_v v) (int j)) (h, v) = Inr (it, h', v')
           \<and> heap_ok h' \<and> owns h' v' (take i xs @ drop j xs)
           \<and> unat (sz v') = length xs - (j - i) \<and> cap v' = cap v \<and> arr v' = arr v"
proof -
  let ?a = "fst (arr v)" and ?n = "unat (sz v)" and ?L = "unat (cap v)"
  let ?first = "ptr_add (begin_v v) (int i)" and ?last = "ptr_add (begin_v v) (int j)"
  have len: "length xs = ?n" and nL: "?n \<le> ?L" and s0: "snd (arr v) = 0"
    using ow by (simp_all add: owns_def)
  have pa: "\<And>q. ptr_add (arr v) (int q) = (?a, int q)"
    using s0 by (simp add: ptr_add_def)
  have n64: "?n < 2 ^ 64" using unsigned_less [of "sz v"] by simp
  have ui: "unat (word_of_int (int i) :: size_type) = i"
    using ij jn len n64 by (simp add: unat_of_nat_64)
  have uj: "unat (word_of_int (int j) :: size_type) = j"
    using jn len n64 by (simp add: unat_of_nat_64)
  have uc: "unat ((word_of_int (int j) :: size_type) - word_of_int (int i)) = j - i"
    using ij ui uj by (simp add: unat_sub word_le_nat_alt)
  define c :: size_type where "c = word_of_int (int j) - word_of_int (int i)"
  have uc': "unat c = j - i" unfolding c_def by (rule uc)
  have us: "unat (sz v - c) = ?n - (j - i)"
    using ij jn len uc' by (simp add: unat_sub word_le_nat_alt)
  have chk: "\<not> (ptr_less ?first (begin_v v) \<or> ptr_less (end_v v) ?last
                  \<or> ptr_less (end_v v) ?first)"
  proof -
    have e: "uint (sz v) = int ?n" by (simp only: uint_nat)
    have "int j \<le> uint (sz v)" "int i \<le> uint (sz v)"
      unfolding e using ij jn len by linarith+
    then show ?thesis
      by (simp add: ptr_less_def begin_v_def end_v_def ptr_add_def)
  qed
  have df: "ptr_diff ?first (begin_v v) = Some (int i)"
    and dl: "ptr_diff ?last (begin_v v) = Some (int j)"
    by (simp_all add: ptr_diff_def begin_v_def ptr_add_def)
  let ?body = "\<lambda>q h. case construct_from env
                              (ptr_add (arr v)
                                 (int (unat (word_of_int (int i) :: size_type)
                                       + (q - unat (word_of_int (int j) :: size_type)))))
                              (ptr_add (arr v) (int q)) h of
                         Inl e \<Rightarrow> Inl e
                       | Inr h' \<Rightarrow>
                           (case destroy_at (ptr_add (arr v) (int q)) h' of
                              None \<Rightarrow> Inl UB
                            | Some h'' \<Rightarrow> Inr h'')"
  let ?v' = "v\<lparr>sz := sz v - c\<rparr>"
  let ?ys = "take i xs @ drop j xs"
  have "\<exists>h'. destroy_each (arr v) [i..<j] h = Some h'
          \<and> for_each ?body [j..<?n] h' \<noteq> Inl UB
          \<and> (\<exists>h''. for_each ?body [j..<?n] h' = Inr h'' \<and> heap_ok h'' \<and> owns h'' ?v' ?ys)"
  proof (cases "i = j")
    case True
    then have j: "j = ?n" using ne len by simp
    have "?ys = xs" using True j len by simp
    moreover have "sz v - c = sz v"
      using True by (simp add: c_def)
    ultimately have "owns h ?v' ?ys" using ow by simp
    then show ?thesis using True j ok by simp
  next
    case False
    then have lt: "i < j" using ij by simp
    have nn: "arr v \<noteq> nullptr"
    proof
      assume "arr v = nullptr"
      from owns_null(3) [OF ow this] jn lt show False by simp
    qed
    note o = owns_block [OF ow nn]
    have av: "arr v = (?a, 0)" using s0 by (simp add: prod_eq_iff)
    let ?A = "map Live xs @ replicate (?L - ?n) Raw"
    have A: "?A = tab ?L (\<lambda>q. if q < ?n then Live (xs ! q) else Raw)"
      using len nL by (rule owned_block_tab)
    have lA: "length ?A = ?L" using len nL by simp
    have "\<exists>h'. destroy_each (?a, 0) [i..<j] h = Some h'
           \<and> lookup h' = (lookup h)(?a \<mapsto> tab (length ?A)
                                       (\<lambda>q. if i \<le> q \<and> q < j then Raw else ?A ! q))
           \<and> next_id h' = next_id h \<and> ctor_calls h' = ctor_calls h"
    proof (rule destroy_range_live)
      show "lookup h ?a = Some ?A" by (rule o(2))
      show "j \<le> length ?A" using jn len nL by simp
      fix q assume "i \<le> q" "q < j"
      then have "q < length xs" using jn by simp
      then show "\<exists>x. ?A ! q = Live x" by (simp add: nth_append)
    qed
    then obtain h1 where d: "destroy_each (?a, 0) [i..<j] h = Some h1"
      and l1: "lookup h1 = (lookup h)(?a \<mapsto> tab (length ?A)
                                       (\<lambda>q. if i \<le> q \<and> q < j then Raw else ?A ! q))"
      and n1: "next_id h1 = next_id h" by blast
    have t1: "tab (length ?A) (\<lambda>q. if i \<le> q \<and> q < j then Raw else ?A ! q)
              = tab ?L (\<lambda>q. if q < i then Live (xs ! q) else if q < j then Raw
                             else if q < ?n then Live (xs ! q) else Raw)"
      unfolding lA unfolding A using lt jn len by (auto simp: tab_eq_iff)
    have l1a: "lookup h1 ?a = Some (tab ?L (\<lambda>q. if q < i then Live (xs ! q) else if q < j then Raw
                             else if q < ?n then Live (xs ! q) else Raw))"
      unfolding l1 t1 by simp
    have "\<exists>h'. for_each ?body [j..<?n] h1 = Inr h'
           \<and> lookup h' = (lookup h1)
                (?a \<mapsto> tab ?L (\<lambda>q. if q < i then Live (xs ! q)
                                  else if q < i + (?n - j) then Live (xs ! (q + (j - i)))
                                  else Raw))
           \<and> next_id h' = next_id h1"
      using nt l1a lt
    proof (rule erase_loop)
      show "j \<le> ?n" using jn len by simp
      show "?n \<le> ?L" by (rule nL)
      fix q :: nat and h0 :: "'a heap"
      show "?body q h0 = (case construct_from env (?a, int (i + (q - j))) (?a, int q) h0 of
                      Inl e \<Rightarrow> Inl e
                    | Inr h' \<Rightarrow> (case destroy_at (?a, int q) h' of
                                   None \<Rightarrow> Inl UB
                                 | Some h'' \<Rightarrow> Inr h''))"
        unfolding ui uj pa by (rule refl)
    qed
    then obtain h2 where lp: "for_each ?body [j..<?n] h1 = Inr h2"
      and l2: "lookup h2 = (lookup h1)
                (?a \<mapsto> tab ?L (\<lambda>q. if q < i then Live (xs ! q)
                                  else if q < i + (?n - j) then Live (xs ! (q + (j - i)))
                                  else Raw))"
      and n2: "next_id h2 = next_id h1" by blast
    have blk: "tab ?L (\<lambda>q. if q < i then Live (xs ! q)
                                  else if q < i + (?n - j) then Live (xs ! (q + (j - i)))
                                  else Raw)
               = map Live ?ys @ replicate (?L - (?n - (j - i))) Raw"
      using len ij _ nL
    proof (rule erased_block)
      show "j \<le> ?n" using jn len by simp
    qed
    have l2a: "lookup h2 ?a = Some (map Live ?ys @ replicate (?L - (?n - (j - i))) Raw)"
      unfolding l2 blk by simp
    have ly: "length ?ys = ?n - (j - i)" using ij jn len by simp
    have ow2: "owns h2 ?v' ?ys"
      using nn s0 nL ly l2a by (simp add: owns_def us)
    have ok2: "heap_ok h2"
    proof (rule heap_ok_same_keys [OF ok])
      show "next_id h2 = next_id h" using n2 n1 by simp
      fix b blk0 assume "lookup h2 b = Some blk0"
      then show "\<exists>blk0. lookup h b = Some blk0"
        using l2 l1 o(2) by (cases "b = ?a") auto
    qed
    from d lp ow2 ok2 show ?thesis unfolding av [symmetric] by auto
  qed
  then obtain h1 h2 where d: "destroy_each (arr v) [i..<j] h = Some h1"
    and lp: "for_each ?body [j..<?n] h1 = Inr h2"
    and ok2: "heap_ok h2" and ow2: "owns h2 ?v' ?ys" by blast
  have "erase_range env ?first ?last (h, v) =
           Inr (ptr_add (begin_v v)
                  (sint ((word_of_int (int i) :: size_type)
                         + of_nat (?n - unat (word_of_int (int j) :: size_type)))),
                h2, ?v')"
    unfolding c_def using chk df dl
  proof (rule erase_range_unfold)
    show "destroy_each (arr v)
            [unat (word_of_int (int i) :: size_type)..<unat (word_of_int (int j) :: size_type)] h
          = Some h1"
      unfolding ui uj by (rule d)
    show "for_each ?body [unat (word_of_int (int j) :: size_type)..<?n] h1 = Inr h2"
      using lp unfolding uj .
  qed
  moreover have "unat (sz ?v') = length xs - (j - i)" using us len by simp
  ultimately show ?thesis using ok2 ow2 by simp
qed

section \<open>Erasing at the end position: the steps\<close>

text \<open>
  The only exception a loop of element constructions can raise is the element's own,
  and \<^verbatim>\<open>erase(end())\<close> unfolds, in every state, to the \<^verbatim>\<open>destroy\<close> of the slot at index
  \<^verbatim>\<open>size()\<close>, the loop up to \<^verbatim>\<open>sz_ - 1\<close> and the store of \<^verbatim>\<open>sz_ - 1\<close>.
\<close>

lemma construct_from_throw_kind:
  "construct_from env dst src h = Inl (Throw e s) \<Longrightarrow> e = ElemFailure"
  by (auto simp: construct_from_def Let_def split: option.splits slot.splits if_splits)

lemma for_each_throw_kind:
  assumes "\<And>i h e s. body i h = Inl (Throw e s) \<Longrightarrow> e = ElemFailure"
  shows "for_each body is h = Inl (Throw e s) \<Longrightarrow> e = ElemFailure"
proof (induction "is" arbitrary: h)
  case Nil
  then show ?case by simp
next
  case (Cons i "is")
  show ?case
  proof (cases "body i h")
    case (Inr h')
    with Cons show ?thesis by simp
  next
    case (Inl err)
    show ?thesis
    proof (cases err)
      case UB
      with Inl Cons.prems show ?thesis by simp
    next
      case (Throw e' h')
      with Inl Cons.prems have "e' = e" by simp
      with Inl Throw assms [of i h e h'] show ?thesis by simp
    qed
  qed
qed

lemma erase_end_unfold:
  "erase env (end_v v) (h, v) =
     (case destroy_at (ptr_add (arr v) (uint (size_v v))) h of
        None \<Rightarrow> Inl UB
      | Some h1 \<Rightarrow>
          (case for_each
                  (\<lambda>i h. case construct_from env (ptr_add (arr v) (int i))
                                 (ptr_add (arr v) (int i + 1)) h of
                            Inl e \<Rightarrow> Inl e
                          | Inr h' \<Rightarrow>
                              (case destroy_at (ptr_add (arr v) (int i + 1)) h' of
                                 None \<Rightarrow> Inl UB
                               | Some h'' \<Rightarrow> Inr h''))
                  [unat (size_v v)..<unat (size_v v - 1)] h1 of
             Inl UB \<Rightarrow> Inl UB
           | Inl (Throw e (h2, i)) \<Rightarrow> Inl (Throw e (h2, v))
           | Inr h2 \<Rightarrow>
               Inr (ptr_add (begin_v v) (sint (size_v v)), h2, v\<lparr>sz := size_v v - 1\<rparr>)))"
proof -
  have w: "(word_of_int (uint (sz v)) :: size_type) = sz v" by simp
  show ?thesis
    apply (simp add: erase_def end_in_window ptr_diff_end_begin)
    unfolding size_v_def Let_def w
    apply (rule refl)
    done
qed

section \<open>Erasing at the end position\<close>

text \<open>
  C10. The bounds check of the single-position \<^verbatim>\<open>erase\<close> lets \<^verbatim>\<open>pos == end()\<close> through.
  For every state of the container and the heap:

    \<^item> \<^verbatim>\<open>end()\<close> passes the test \<^verbatim>\<open>pos < begin() || pos > end()\<close>, and \<^verbatim>\<open>erase(end())\<close> never
      ends with the out-of-range error;

    \<^item> \<^verbatim>\<open>erase(end())\<close> is exactly: destroy the slot at index \<^verbatim>\<open>size()\<close>; run the shifting loop
      from \<^verbatim>\<open>size()\<close> up to \<^verbatim>\<open>sz_ - 1\<close>, computed in \<^verbatim>\<open>size_t\<close>; store \<^verbatim>\<open>sz_ - 1\<close> as the size and
      return \<^verbatim>\<open>begin() + size()\<close>;

    \<^item> in a well-formed container the slot at index \<^verbatim>\<open>size()\<close> holds no live element, the
      \<^verbatim>\<open>destroy\<close> is undefined, and the run ends there, in the error branch of the model;

    \<^item> on a container of size \<open>0\<close> the decrement wraps: the loop runs up to \<open>2\<^sup>6\<^sup>4 - 1\<close> and
      the size stored is \<open>2\<^sup>6\<^sup>4 - 1\<close>.
\<close>

theorem erase_end_steps:
  "\<not> (ptr_less (end_v v) (begin_v v) \<or> ptr_less (end_v v) (end_v v))
   \<and> (\<forall>s. erase env (end_v v) (h, v) \<noteq> Inl (Throw OutOfRange s))
   \<and> erase env (end_v v) (h, v) =
       (case destroy_at (ptr_add (arr v) (uint (size_v v))) h of
          None \<Rightarrow> Inl UB
        | Some h1 \<Rightarrow>
            (case for_each
                    (\<lambda>i h. case construct_from env (ptr_add (arr v) (int i))
                                   (ptr_add (arr v) (int i + 1)) h of
                              Inl e \<Rightarrow> Inl e
                            | Inr h' \<Rightarrow>
                                (case destroy_at (ptr_add (arr v) (int i + 1)) h' of
                                   None \<Rightarrow> Inl UB
                                 | Some h'' \<Rightarrow> Inr h''))
                    [unat (size_v v)..<unat (size_v v - 1)] h1 of
               Inl UB \<Rightarrow> Inl UB
             | Inl (Throw e (h2, i)) \<Rightarrow> Inl (Throw e (h2, v))
             | Inr h2 \<Rightarrow>
                 Inr (ptr_add (begin_v v) (sint (size_v v)), h2, v\<lparr>sz := size_v v - 1\<rparr>)))
   \<and> (heap_ok h \<and> owns h v xs \<longrightarrow>
        (\<forall>x. peek h (ptr_add (arr v) (uint (size_v v))) \<noteq> Some (Live x))
        \<and> destroy_at (ptr_add (arr v) (uint (size_v v))) h = None
        \<and> erase env (end_v v) (h, v) = Inl UB)
   \<and> (size_v v = 0 \<longrightarrow>
        erase env (end_v v) (h, v) =
          (case destroy_at (ptr_add (arr v) 0) h of
             None \<Rightarrow> Inl UB
           | Some h1 \<Rightarrow>
               (case for_each
                       (\<lambda>i h. case construct_from env (ptr_add (arr v) (int i))
                                      (ptr_add (arr v) (int i + 1)) h of
                                 Inl e \<Rightarrow> Inl e
                               | Inr h' \<Rightarrow>
                                   (case destroy_at (ptr_add (arr v) (int i + 1)) h' of
                                      None \<Rightarrow> Inl UB
                                    | Some h'' \<Rightarrow> Inr h''))
                       [0..<2 ^ 64 - 1] h1 of
                  Inl UB \<Rightarrow> Inl UB
                | Inl (Throw e (h2, i)) \<Rightarrow> Inl (Throw e (h2, v))
                | Inr h2 \<Rightarrow>
                    Inr (ptr_add (begin_v v) 0, h2, v\<lparr>sz := word_of_nat (2 ^ 64 - 1)\<rparr>))))"
proof -
  let ?body = "\<lambda>i h. case construct_from env (ptr_add (arr v) (int i))
                                   (ptr_add (arr v) (int i + 1)) h of
                              Inl e \<Rightarrow> Inl e
                            | Inr h' \<Rightarrow>
                                (case destroy_at (ptr_add (arr v) (int i + 1)) h' of
                                   None \<Rightarrow> Inl UB
                                 | Some h'' \<Rightarrow> Inr h'')"
  have kind: "\<And>i h e s. ?body i h = Inl (Throw e s) \<Longrightarrow> e = ElemFailure"
    by (auto dest: construct_from_throw_kind split: sum.splits option.splits)
  have no: "erase env (end_v v) (h, v) \<noteq> Inl (Throw OutOfRange s)" for s
  proof
    assume a: "erase env (end_v v) (h, v) = Inl (Throw OutOfRange s)"
    then obtain h1 h2 i where
      "for_each ?body [unat (size_v v)..<unat (size_v v - 1)] h1 = Inl (Throw OutOfRange (h2, i))"
      unfolding erase_end_unfold
      by (auto split: option.splits sum.splits error.splits)
    from for_each_throw_kind [OF kind this] show False by simp
  qed
  have wf: "(\<forall>x. peek h (ptr_add (arr v) (uint (size_v v))) \<noteq> Some (Live x))
        \<and> destroy_at (ptr_add (arr v) (uint (size_v v))) h = None
        \<and> erase env (end_v v) (h, v) = Inl UB" if "heap_ok h" "owns h v xs"
  proof -
    have dead: "peek h (end_v v) = None \<or> peek h (end_v v) = Some Raw"
      using that by (rule peek_end_not_live)
    have e: "ptr_add (arr v) (uint (size_v v)) = end_v v"
      by (simp add: end_v_def size_v_def)
    have d: "destroy_at (ptr_add (arr v) (uint (size_v v))) h = None"
      unfolding e using dead by (auto simp: destroy_at_def)
    have "erase env (end_v v) (h, v) = Inl UB"
      unfolding erase_end_unfold d by simp
    with d dead show ?thesis unfolding e by auto
  qed
  have wrap: "erase env (end_v v) (h, v) =
          (case destroy_at (ptr_add (arr v) 0) h of
             None \<Rightarrow> Inl UB
           | Some h1 \<Rightarrow>
               (case for_each ?body [0..<2 ^ 64 - 1] h1 of
                  Inl UB \<Rightarrow> Inl UB
                | Inl (Throw e (h2, i)) \<Rightarrow> Inl (Throw e (h2, v))
                | Inr h2 \<Rightarrow>
                    Inr (ptr_add (begin_v v) 0, h2, v\<lparr>sz := word_of_nat (2 ^ 64 - 1)\<rparr>)))"
    if z: "size_v v = 0"
  proof -
    have a: "uint (0 :: size_type) = 0" "unat (0 :: size_type) = 0"
      "sint (0 :: size_type) = 0" by simp_all
    have b: "unat ((0 :: size_type) - 1) = 2 ^ 64 - 1"
      by (simp add: unsigned_minus_1_eq_mask mask_eq_exp_minus_1)
    have c: "(0 :: size_type) - 1 = word_of_nat (2 ^ 64 - 1)"
      by (simp add: word_unat_eq_iff unsigned_minus_1_eq_mask mask_eq_exp_minus_1 unat_of_nat_64)
    show ?thesis
      unfolding erase_end_unfold z a b unfolding c by (rule refl)
  qed
  show ?thesis
    using no wf wrap erase_end_unfold [of env v h] end_in_window [of v] by blast
qed

text \<open>
  The well-formed containers \<open>{1, 2, 3}\<close> and \<open>{}\<close> end at the \<^verbatim>\<open>destroy\<close>. Where the slot at
  index \<^verbatim>\<open>size()\<close> holds an object, the later steps are seen: with size \<open>2\<close> over the
  block of \<open>{1, 2, 3}\<close> the call destroys the third object and returns with size \<open>1\<close>;
  with size \<open>0\<close> the loop is entered with its wrapped bound and shifts objects until the
  second construction fails.
\<close>

theorem erase_end_steps_witness:
  "heap_ok heap_123 \<and> owns heap_123 vec_123 [1, 2, 3]
   \<and> peek heap_123 (ptr_add (arr vec_123) (uint (size_v vec_123))) = Some Raw
   \<and> erase int_env (end_v vec_123) (heap_123, vec_123) = Inl UB
   \<and> heap_ok heap_empty \<and> owns heap_empty vector_default [] \<and> size_v vector_default = 0
   \<and> erase int_env (end_v vector_default) (heap_empty, vector_default) = Inl UB
   \<and> erase int_env (end_v vec_2_of_4) (heap_123, vec_2_of_4) =
       Inr ((1, 2),
            \<lparr>blocks = [(1, [Live 1, Live 2, Raw, Raw])], next_id = 2, ctor_calls = 0\<rparr>,
            \<lparr>arr = (1, 0), sz = 1, cap = 4\<rparr>)
   \<and> size_v vec_0_of_4 = 0
   \<and> erase copy_env (end_v vec_0_of_4) (heap_123, vec_0_of_4) =
       Inl (Throw ElemFailure
             (\<lparr>blocks = [(1, [Live 2, Raw, Live 3, Raw])], next_id = 2, ctor_calls = 2\<rparr>,
              vec_0_of_4))"
proof -
  have a: "heap_ok heap_123 \<and> owns heap_123 vec_123 [1, 2, 3]" by code_simp
  have b: "heap_ok heap_empty \<and> owns heap_empty vector_default []" by code_simp
  have c: "size_v vector_default = 0" by code_simp
  have p: "peek heap_123 (ptr_add (arr vec_123) (uint (size_v vec_123))) = Some Raw"
    by code_simp
  have r: "erase int_env (end_v vec_2_of_4) (heap_123, vec_2_of_4) =
       Inr ((1, 2),
            \<lparr>blocks = [(1, [Live 1, Live 2, Raw, Raw])], next_id = 2, ctor_calls = 0\<rparr>,
            \<lparr>arr = (1, 0), sz = 1, cap = 4\<rparr>)"
    by code_simp
  have z: "size_v vec_0_of_4 = 0" by code_simp
  let ?body = "\<lambda>i h. case construct_from copy_env (ptr_add (arr vec_0_of_4) (int i))
                                   (ptr_add (arr vec_0_of_4) (int i + 1)) h of
                              Inl e \<Rightarrow> Inl e
                            | Inr h' \<Rightarrow>
                                (case destroy_at (ptr_add (arr vec_0_of_4) (int i + 1)) h' of
                                   None \<Rightarrow> Inl UB
                                 | Some h'' \<Rightarrow> Inr h'')"
  let ?h1 = "\<lparr>blocks = [(1, [Raw, Live 2, Live 3, Raw])], next_id = 2, ctor_calls = 0\<rparr> :: int heap"
  let ?h2 = "\<lparr>blocks = [(1, [Live 2, Raw, Live 3, Raw])], next_id = 2, ctor_calls = 1\<rparr> :: int heap"
  let ?h3 = "\<lparr>blocks = [(1, [Live 2, Raw, Live 3, Raw])], next_id = 2, ctor_calls = 2\<rparr> :: int heap"
  have d: "destroy_at (ptr_add (arr vec_0_of_4) 0) heap_123 = Some ?h1" by code_simp
  have s0: "?body 0 ?h1 = Inr ?h2" by code_simp
  have s1: "?body (Suc 0) ?h2 = Inl (Throw ElemFailure ?h3)" by code_simp
  have u0: "[0..<2 ^ 64 - 1] = 0 # [Suc 0..<2 ^ 64 - 1]"
    by (rule upt_conv_Cons) simp
  have u1: "[Suc 0..<2 ^ 64 - 1] = Suc 0 # [Suc (Suc 0)..<2 ^ 64 - 1]"
    by (rule upt_conv_Cons) simp
  have u: "[0..<2 ^ 64 - 1] = 0 # Suc 0 # [Suc (Suc 0)..<2 ^ 64 - 1]"
    by (simp only: u0 u1)
  have lp: "for_each ?body [0..<2 ^ 64 - 1] ?h1 = Inl (Throw ElemFailure (?h3, Suc 0))"
    unfolding u by (simp only: for_each.simps s0 s1 sum.case error.case)
  have t: "erase copy_env (end_v vec_0_of_4) (heap_123, vec_0_of_4) =
       Inl (Throw ElemFailure (?h3, vec_0_of_4))"
  proof -
    have "erase copy_env (end_v vec_0_of_4) (heap_123, vec_0_of_4) =
          (case destroy_at (ptr_add (arr vec_0_of_4) 0) heap_123 of
             None \<Rightarrow> Inl UB
           | Some h1 \<Rightarrow>
               (case for_each ?body [0..<2 ^ 64 - 1] h1 of
                  Inl UB \<Rightarrow> Inl UB
                | Inl (Throw e (h2, i)) \<Rightarrow> Inl (Throw e (h2, vec_0_of_4))
                | Inr h2 \<Rightarrow>
                    Inr (ptr_add (begin_v vec_0_of_4) 0, h2,
                         vec_0_of_4\<lparr>sz := word_of_nat (2 ^ 64 - 1)\<rparr>)))"
      using erase_end_steps [of vec_0_of_4 copy_env heap_123 "[]"] z by blast
    then show ?thesis
      by (simp only: d lp option.case sum.case error.case prod.case)
  qed
  show ?thesis
    using erase_end_steps [of vec_123 int_env heap_123 "[1, 2, 3]"]
      erase_end_steps [of vector_default int_env heap_empty "[]"] a b c p r z t
    by simp
qed

section \<open>Reserving less than the capacity\<close>

text \<open>
  C3. The claim: when \<open>newcap\<close> does not exceed the capacity, \<^verbatim>\<open>reserve(newcap)\<close> leaves
  capacity, size and contents as they are. \<^verbatim>\<open>reserve\<close> has no such test: it always
  allocates \<open>newcap\<close> slots and adopts the new block. On \<open>{1, 2, 3}\<close> with capacity \<open>4\<close>,
  \<^verbatim>\<open>reserve(3)\<close> returns with capacity \<open>3\<close>.
\<close>

theorem reserve_shrinks:
  "owns heap_123 vec_123 [1, 2, 3] \<and> capacity vec_123 = 4 \<and>
   reserve int_env 3 (heap_123, vec_123) =
     Inr (\<lparr>blocks = [(2, [Live 1, Live 2, Live 3])], next_id = 3, ctor_calls = 3\<rparr>,
          \<lparr>arr = (2, 0), sz = 3, cap = 3\<rparr>)"
  by code_simp

text \<open>Below the size there is no room for the elements in the new block.\<close>

lemma reserve_below_size: "reserve int_env 2 (heap_123, vec_123) = Inl UB"
  by code_simp

text \<open>
  In general: whenever \<open>newcap\<close> is at least the size, \<^verbatim>\<open>reserve(newcap)\<close> makes \<open>newcap\<close>
  the capacity, smaller than the old one or not, and keeps the elements.
\<close>

lemma reserve_sets_capacity:
  assumes "heap_ok h" and "owns h v xs" and "\<forall>k. \<not> throws env k"
    and "can_alloc env (unat newcap)" and "unat (sz v) \<le> unat newcap"
  shows "\<exists>h' v'. reserve env newcap (h, v) = Inr (h', v') \<and> capacity v' = newcap
           \<and> size_v v' = size_v v \<and> owns h' v' xs"
proof -
  from reserve_ok [OF assms]
  obtain h' where r: "reserve env newcap (h, v) = Inr (h', v\<lparr>arr := (next_id h, 0), cap := newcap\<rparr>)"
    and l: "lookup h' = (lookup h)
                (fst (arr v) := None,
                 next_id h \<mapsto> map Live xs @ replicate (unat newcap - unat (sz v)) Raw)"
    by blast
  have "owns h' (v\<lparr>arr := (next_id h, 0), cap := newcap\<rparr>) xs"
    using assms(2,5) heap_ok_next [OF assms(1)] by (simp add: owns_def l nullptr_def)
  with r show ?thesis by (simp add: capacity_def size_v_def)
qed

text \<open>\<^verbatim>\<open>shrink_to_fit\<close> on the same container brings the capacity down to the size.\<close>

lemma shrink_to_fit_example:
  "shrink_to_fit int_env (heap_123, vec_123) =
     Inr (\<lparr>blocks = [(2, [Live 1, Live 2, Live 3])], next_id = 3, ctor_calls = 3\<rparr>,
          \<lparr>arr = (2, 0), sz = 3, cap = 3\<rparr>)"
  by code_simp

section \<open>Erasing an empty range\<close>

text \<open>
  C4. The claim: erasing \<open>[i, j)\<close> with \<open>i \<le> j \<le> n\<close> leaves the other elements, in order.
  For \<open>i = j < n\<close> the second loop of \<^verbatim>\<open>erase(first, last)\<close> constructs every element from
  \<open>i\<close> on from itself and destroys it at once, while the size stays \<open>n\<close>. On \<open>{1, 2, 3}\<close>,
  \<^verbatim>\<open>erase(begin(), begin())\<close> returns with size \<open>3\<close> and no live element.
\<close>

theorem erase_empty_range_destroys:
  "owns heap_123 vec_123 [1, 2, 3] \<and>
   erase_range int_env (begin_v vec_123) (begin_v vec_123) (heap_123, vec_123) =
     Inr ((1, 3),
          \<lparr>blocks = [(1, [Raw, Raw, Raw, Raw])], next_id = 2, ctor_calls = 3\<rparr>,
          \<lparr>arr = (1, 0), sz = 3, cap = 4\<rparr>)"
  by code_simp

section \<open>The position argument of insert\<close>

text \<open>
  C7. The claim: every form of \<^verbatim>\<open>insert\<close> reports a position outside \<^verbatim>\<open>[begin(), end()]\<close>
  as out of range, also when nothing is to be inserted. The count form returns on a zero
  count before it looks at the position: on \<open>{1, 2, 3}\<close> with capacity \<open>4\<close>,
  \<^verbatim>\<open>insert(begin() + 4, 0, 9)\<close>, one past \<^verbatim>\<open>end()\<close>, returns that position.
\<close>

theorem insert_count_zero_unchecked:
  "ptr_less (end_v vec_123) (ptr_add (begin_v vec_123) 4) \<and>
   insert_count int_env (ptr_add (begin_v vec_123) 4) 0 9 (heap_123, vec_123) =
     Inr (ptr_add (begin_v vec_123) 4, heap_123, vec_123)"
  by code_simp

text \<open>In general, with a zero count the position is never compared.\<close>

lemma insert_count_zero:
  assumes "fst pos = fst (begin_v v)"
  shows "\<exists>it. insert_count env pos 0 x (h, v) = Inr (it, h, v)"
  using assms by (simp add: insert_count_def ptr_diff_def)

text \<open>The other forms compare the position first, whatever the number of elements.\<close>

lemma insert_others_checked:
  assumes "ptr_less pos (begin_v v) \<or> ptr_less (end_v v) pos"
  shows "insert_impl env pos x (h, v) = Inl (Throw OutOfRange (h, v))"
    and "insert_ilist env pos ilist (h, v) = Inl (Throw OutOfRange (h, v))"
    and "insert_dispatch env pos first last_it (h, v) = Inl (Throw OutOfRange (h, v))"
  using assms by (simp_all add: insert_impl_def insert_ilist_def insert_dispatch_def)

lemma insert_count_checked:
  assumes "ptr_less pos (begin_v v) \<or> ptr_less (end_v v) pos" and "count \<noteq> 0"
    and "fst pos = fst (begin_v v)"
  shows "insert_count env pos count x (h, v) = Inl (Throw OutOfRange (h, v))"
  using assms by (simp add: insert_count_def ptr_diff_def)

section \<open>Move assignment\<close>

text \<open>
  C8 as stated says that after a move assignment the source keeps its reported size. It
  does not: both the pointer and the size of the source are reset. From \<open>{7}\<close>, with
  size \<open>1\<close>, the source is left with size \<open>0\<close> (and capacity \<open>1\<close>).
\<close>

theorem move_assign_source_size_counterexample:
  "owns heap_two vec_123 [1, 2, 3] \<and> owns heap_two vec_7 [7] \<and> size_v vec_7 = 1 \<and>
   move_assign vec_123 vec_7 heap_two =
     Some (\<lparr>blocks = [(2, [Live 7])], next_id = 3, ctor_calls = 0\<rparr>,
           \<lparr>arr = (2, 0), sz = 1, cap = 1\<rparr>,
           \<lparr>arr = nullptr, sz = 0, cap = 1\<rparr>)"
  by code_simp

lemma deallocate_owned:
  assumes "owns h v xs" and "arr v \<noteq> nullptr"
  shows "deallocate (arr v) (unat (cap v)) h =
           Some (h\<lparr>blocks := AList.delete (fst (arr v)) (blocks h)\<rparr>)"
  using assms by (simp add: owns_def deallocate_def)

text \<open>
  C8, amended. After move assignment into a distinct container (one that owns another
  block or none), the source's block pointer is cleared and its size is reset to zero,
  while its reported capacity is not reset; the destination has taken over the source's
  block, size and capacity, and with them its elements.
\<close>

theorem move_assign_effect:
  assumes "owns h this ys" and "owns h other zs"
    and "arr this = nullptr \<or> fst (arr this) \<noteq> fst (arr other)"
  shows "\<exists>h' this' other'.
           move_assign this other h = Some (h', this', other')
           \<and> arr other' = nullptr \<and> size_v other' = 0 \<and> capacity other' = capacity other
           \<and> arr this' = arr other \<and> size_v this' = size_v other
           \<and> capacity this' = capacity other \<and> owns h' this' zs"
proof (cases "arr this = nullptr")
  case True
  have "owns h (this\<lparr>arr := arr other, sz := sz other, cap := cap other\<rparr>) zs"
    using assms(2) by (simp add: owns_def)
  with True show ?thesis
    by (simp add: move_assign_def size_v_def capacity_def)
next
  case False
  let ?h' = "h\<lparr>blocks := AList.delete (fst (arr this)) (blocks h)\<rparr>"
  have d: "deallocate (arr this) (unat (cap this)) h = Some ?h'"
    using assms(1) False by (rule deallocate_owned)
  have "lookup ?h' = (lookup h)(fst (arr this) := None)"
    by (simp add: lookup_def delete_conv' fun_eq_iff)
  moreover have "fst (arr this) \<noteq> fst (arr other)" using assms(3) False by simp
  ultimately have "owns ?h' (this\<lparr>arr := arr other, sz := sz other, cap := cap other\<rparr>) zs"
    using assms(2) by (simp add: owns_def)
  with False d show ?thesis
    by (simp add: move_assign_def size_v_def capacity_def)
qed

theorem move_assign_effect_witness:
  "owns heap_two vec_123 [1, 2, 3] \<and> owns heap_two vec_7 [7]
   \<and> fst (arr vec_123) \<noteq> fst (arr vec_7)
   \<and> (\<exists>h' this' other'.
      move_assign vec_123 vec_7 heap_two = Some (h', this', other')
      \<and> arr other' = nullptr \<and> size_v other' = 0 \<and> capacity other' = capacity vec_7
      \<and> arr this' = arr vec_7 \<and> size_v this' = size_v vec_7
      \<and> capacity this' = capacity vec_7 \<and> owns h' this' [7])"
proof -
  have a: "owns heap_two vec_123 [1, 2, 3]" by code_simp
  have b: "owns heap_two vec_7 [7]" by code_simp
  have c: "fst (arr vec_123) \<noteq> fst (arr vec_7)" by code_simp
  then have c': "arr vec_123 = nullptr \<or> fst (arr vec_123) \<noteq> fst (arr vec_7)" by simp
  show ?thesis
    using move_assign_effect [OF a b c'] a b c by simp
qed

section \<open>The test for emptiness\<close>

text \<open>
  C9 as stated says that \<^verbatim>\<open>empty()\<close> is false for every container whose capacity is not
  zero. The source of a move assignment has a null pointer and keeps its capacity: for
  it \<^verbatim>\<open>capacity()\<close> is \<open>1\<close> and \<^verbatim>\<open>empty()\<close> is true.
\<close>

theorem empty_with_capacity_counterexample:
  "move_assign vec_123 vec_7 heap_two =
     Some (\<lparr>blocks = [(2, [Live 7])], next_id = 3, ctor_calls = 0\<rparr>,
           \<lparr>arr = (2, 0), sz = 1, cap = 1\<rparr>,
           \<lparr>arr = nullptr, sz = 0, cap = 1\<rparr>)
   \<and> capacity \<lparr>arr = nullptr, sz = 0, cap = 1\<rparr> = 1
   \<and> empty_v \<lparr>arr = nullptr, sz = 0, cap = 1\<rparr> = True"
  by code_simp

text \<open>
  C9, amended. \<^verbatim>\<open>empty()\<close> returns true iff the block pointer is unset, not iff the size
  is zero: for every container of the data model (its pointer is unset only when its
  capacity is zero) whose capacity is nonzero, \<^verbatim>\<open>empty()\<close> returns false, also when the
  size is zero, as it is immediately after \<^verbatim>\<open>clear()\<close>.
\<close>

theorem empty_checks_pointer:
  "(empty_v v \<longleftrightarrow> arr v = nullptr)
   \<and> (owns h v xs \<and> capacity v \<noteq> 0 \<longrightarrow>
        \<not> empty_v v
        \<and> (\<exists>h' v'. clear (h, v) = Some (h', v') \<and> size_v v' = 0
              \<and> capacity v' = capacity v \<and> \<not> empty_v v'))"
proof -
  have 1: "empty_v v \<longleftrightarrow> arr v = nullptr"
    by (simp add: empty_v_def)
  have 2: "\<not> empty_v v \<and> (\<exists>h' v'. clear (h, v) = Some (h', v') \<and> size_v v' = 0
              \<and> capacity v' = capacity v \<and> \<not> empty_v v')"
    if o: "owns h v xs" and c: "capacity v \<noteq> 0"
  proof -
    have nn: "arr v \<noteq> nullptr"
      using owns_null(2) [OF o] c by (auto simp: capacity_def)
    from clear_owned [OF o] obtain h' where "clear (h, v) = Some (h', v\<lparr>sz := 0\<rparr>)" by blast
    with nn show ?thesis
      by (auto simp: empty_v_def size_v_def capacity_def)
  qed
  from 1 2 show ?thesis by blast
qed

theorem empty_checks_pointer_witness:
  "owns heap_123 vec_123 [1, 2, 3] \<and> capacity vec_123 \<noteq> 0
   \<and> \<not> empty_v vec_123
   \<and> (\<exists>h' v'. clear (heap_123, vec_123) = Some (h', v') \<and> size_v v' = 0
         \<and> capacity v' = capacity vec_123 \<and> \<not> empty_v v')"
proof -
  have a: "owns heap_123 vec_123 [1, 2, 3]" by code_simp
  have b: "capacity vec_123 \<noteq> 0" by code_simp
  show ?thesis
    using empty_checks_pointer [of vec_123 heap_123 "[1, 2, 3]"] a b by blast
qed

section \<open>Equality and order of containers\<close>

lemma those_length: "those os = Some xs \<Longrightarrow> length xs = length os"
  by (induction os arbitrary: xs) (auto split: option.splits)

lemma elements_length: "elements h v = Some xs \<Longrightarrow> length xs = unat (sz v)"
  by (auto simp: elements_def dest: those_length)

lemma std_equal_iff:
  "length xs = length ys \<Longrightarrow>
   std_equal eq xs ys = Some (\<forall>i<length xs. eq (xs ! i) (ys ! i))"
  by (induction xs ys rule: list_induct2) (auto simp: All_less_Suc2)

lemma lexicographical_compare_iff:
  "length xs = length ys \<Longrightarrow>
   lexicographical_compare lt xs ys \<longleftrightarrow>
     (\<exists>k<length xs. lt (xs ! k) (ys ! k)
        \<and> (\<forall>j<k. \<not> lt (xs ! j) (ys ! j) \<and> \<not> lt (ys ! j) (xs ! j)))"
proof (induction xs ys rule: list_induct2)
  case Nil
  then show ?case by simp
next
  case (Cons x xs y ys)
  show ?case
  proof (cases "lt x y")
    case True
    then have "lt ((x # xs) ! 0) ((y # ys) ! 0) \<and>
      (\<forall>j<0. \<not> lt ((x # xs) ! j) ((y # ys) ! j) \<and> \<not> lt ((y # ys) ! j) ((x # xs) ! j))"
      by simp
    then have "\<exists>k<length (x # xs). lt ((x # xs) ! k) ((y # ys) ! k) \<and>
      (\<forall>j<k. \<not> lt ((x # xs) ! j) ((y # ys) ! j) \<and> \<not> lt ((y # ys) ! j) ((x # xs) ! j))"
      by (intro exI [of _ 0]) simp
    with True show ?thesis by simp
  next
    case nlt: False
    show ?thesis
    proof (cases "lt y x")
      case True
      have "\<not> (\<exists>k<length (x # xs). lt ((x # xs) ! k) ((y # ys) ! k) \<and>
        (\<forall>j<k. \<not> lt ((x # xs) ! j) ((y # ys) ! j) \<and> \<not> lt ((y # ys) ! j) ((x # xs) ! j)))"
      proof
        assume "\<exists>k<length (x # xs). lt ((x # xs) ! k) ((y # ys) ! k) \<and>
          (\<forall>j<k. \<not> lt ((x # xs) ! j) ((y # ys) ! j) \<and> \<not> lt ((y # ys) ! j) ((x # xs) ! j))"
        then obtain k where k: "lt ((x # xs) ! k) ((y # ys) ! k)"
          "\<forall>j<k. \<not> lt ((x # xs) ! j) ((y # ys) ! j) \<and> \<not> lt ((y # ys) ! j) ((x # xs) ! j)"
          by blast
        show False
        proof (cases k)
          case 0
          with k(1) nlt show False by simp
        next
          case (Suc k')
          with k(2) have "\<not> lt ((y # ys) ! 0) ((x # xs) ! 0)" by blast
          with True show False by simp
        qed
      qed
      with nlt True show ?thesis by simp
    next
      case False
      have "(\<exists>k<length (x # xs). lt ((x # xs) ! k) ((y # ys) ! k) \<and>
        (\<forall>j<k. \<not> lt ((x # xs) ! j) ((y # ys) ! j) \<and> \<not> lt ((y # ys) ! j) ((x # xs) ! j)))
        \<longleftrightarrow> (\<exists>k<length xs. lt (xs ! k) (ys ! k)
        \<and> (\<forall>j<k. \<not> lt (xs ! j) (ys ! j) \<and> \<not> lt (ys ! j) (xs ! j)))"
        using nlt False by (simp add: Ex_less_Suc2 All_less_Suc2)
      with nlt False Cons.IH show ?thesis by simp
    qed
  qed
qed

text \<open>
  C6. Two containers are equal iff their sizes match and all corresponding elements
  compare equal. Less-than looks at the sizes first: when they differ, the container of
  the smaller size is the lesser one whatever the elements are (so \<open>{9, 9} < {1, 2, 3}\<close>,
  see the instance below); only for equal sizes the elements decide, lexicographically.
  The operators \<^verbatim>\<open>!=\<close>, \<^verbatim>\<open>>\<close>, \<^verbatim>\<open><=\<close> and \<^verbatim>\<open>>=\<close> are derived from these two.
\<close>

theorem comparison_operators:
  assumes "elements h lhs = Some xs" and "elements h rhs = Some ys"
  shows "op_eq eq h lhs rhs =
           Some (size_v lhs = size_v rhs \<and> (\<forall>i<length xs. eq (xs ! i) (ys ! i)))
         \<and> op_less lt h lhs rhs =
           Some (if size_v lhs \<noteq> size_v rhs then size_v lhs < size_v rhs
                 else \<exists>k<length xs. lt (xs ! k) (ys ! k)
                        \<and> (\<forall>j<k. \<not> lt (xs ! j) (ys ! j) \<and> \<not> lt (ys ! j) (xs ! j)))
         \<and> op_ne eq h lhs rhs = map_option Not (op_eq eq h lhs rhs)
         \<and> op_greater lt h lhs rhs = op_less lt h rhs lhs
         \<and> op_le lt h lhs rhs = map_option Not (op_less lt h rhs lhs)
         \<and> op_ge lt h lhs rhs = map_option Not (op_less lt h lhs rhs)"
proof -
  have lx: "length xs = unat (sz lhs)" and ly: "length ys = unat (sz rhs)"
    using assms by (simp_all add: elements_length)
  have e: "op_eq eq h lhs rhs =
           Some (size_v lhs = size_v rhs \<and> (\<forall>i<length xs. eq (xs ! i) (ys ! i)))"
  proof (cases "size_v lhs = size_v rhs")
    case True
    then have "length xs = length ys" using lx ly by (simp add: size_v_def)
    with True assms show ?thesis by (simp add: op_eq_def std_equal_iff)
  next
    case False
    then show ?thesis by (simp add: op_eq_def)
  qed
  have l: "op_less lt h lhs rhs =
           Some (if size_v lhs \<noteq> size_v rhs then size_v lhs < size_v rhs
                 else \<exists>k<length xs. lt (xs ! k) (ys ! k)
                        \<and> (\<forall>j<k. \<not> lt (xs ! j) (ys ! j) \<and> \<not> lt (ys ! j) (xs ! j)))"
  proof (cases "size_v lhs = size_v rhs")
    case True
    then have "length xs = length ys" using lx ly by (simp add: size_v_def)
    with True assms show ?thesis by (simp add: op_less_def lexicographical_compare_iff)
  next
    case False
    then show ?thesis by (simp add: op_less_def)
  qed
  show ?thesis
    using e l by (simp add: op_ne_def op_greater_def op_le_def op_ge_def)
qed

theorem comparison_operators_witness:
  "elements heap_cmp vec_99 = Some [9, 9] \<and> elements heap_cmp vec_123b = Some [1, 2, 3]
   \<and> op_eq (=) heap_cmp vec_99 vec_123b = Some False
   \<and> op_less (<) heap_cmp vec_99 vec_123b = Some True
   \<and> op_ne (=) heap_cmp vec_99 vec_123b = Some True
   \<and> op_greater (<) heap_cmp vec_99 vec_123b = Some False
   \<and> op_le (<) heap_cmp vec_99 vec_123b = Some True
   \<and> op_ge (<) heap_cmp vec_99 vec_123b = Some False"
proof -
  have a: "elements heap_cmp vec_99 = Some [9, 9]" by code_simp
  have b: "elements heap_cmp vec_123b = Some [1, 2, 3]" by code_simp
  have s: "size_v vec_99 \<noteq> size_v vec_123b" "size_v vec_99 < size_v vec_123b"
    "\<not> size_v vec_123b < size_v vec_99"
    by (simp_all add: size_v_def vec_99_def vec_123b_def)
  show ?thesis
    using comparison_operators [OF a b, of "(=)" "(<)"] comparison_operators [OF b a, of "(=)" "(<)"] a b s
    by (simp add: op_ne_def op_greater_def op_le_def op_ge_def)
qed

section \<open>The strong guarantee of reserve and push_back\<close>

text \<open>
  C2 as stated covers every failing construction, a failing move included. A move can
  fail in the transfer loop only for an element type without a copy constructor whose
  move constructor may throw: \<^verbatim>\<open>std::move_if_noexcept\<close> then hands out an rvalue. When the
  move of the second element of \<open>{5, 6}\<close> fails during \<^verbatim>\<open>reserve(4)\<close>, the first element has
  been moved from, and the container is left holding \<open>{0, 6}\<close>.
\<close>

theorem strong_guarantee_move_only_counterexample:
  "elements heap_56 vec_56 = Some [5, 6]
   \<and> reserve move_only_env 4 (heap_56, vec_56) =
       Inl (Throw ElemFailure
             (\<lparr>blocks = [(1, [Live 0, Live 6])], next_id = 3, ctor_calls = 2\<rparr>, vec_56))
   \<and> elements \<lparr>blocks = [(1, [Live (0::int), Live 6])], next_id = 3, ctor_calls = 2\<rparr> vec_56
       = Some [0, 6]"
  by code_simp

text \<open>
  C2, amended. For an element type that is nothrow-move-constructible or
  copy-constructible: if the construction of an element fails during \<^verbatim>\<open>reserve\<close> or during
  \<^verbatim>\<open>push_back\<close> (growing or not), then after the failing call the size, the capacity, the
  block pointer and the contents of every block, hence the elements of the container,
  are what they were before the call.
\<close>

theorem strong_guarantee:
  assumes "heap_ok h" and "nothrow_move env \<or> copyable env"
  shows "(reserve env newcap (h, v) = Inl (Throw e (h', v')) \<longrightarrow>
            size_v v' = size_v v \<and> capacity v' = capacity v \<and> arr v' = arr v
            \<and> lookup h' = lookup h \<and> elements h' v' = elements h v)
         \<and> (push_back env x (h, v) = Inl (Throw e (h', v')) \<longrightarrow>
            size_v v' = size_v v \<and> capacity v' = capacity v \<and> arr v' = arr v
            \<and> lookup h' = lookup h \<and> elements h' v' = elements h v)"
proof -
  have r: "size_v v' = size_v v \<and> capacity v' = capacity v \<and> arr v' = arr v
            \<and> lookup h' = lookup h \<and> elements h' v' = elements h v"
    if "reserve env newcap (h, v) = Inl (Throw e (h', v'))"
    using reserve_throw_unchanged [OF assms that] elements_cong [of h' h v]
    by (simp add: size_v_def capacity_def)
  have p: "size_v v' = size_v v \<and> capacity v' = capacity v \<and> arr v' = arr v
            \<and> lookup h' = lookup h \<and> elements h' v' = elements h v"
    if "push_back env x (h, v) = Inl (Throw e (h', v'))"
    using emplace_back_throw_unchanged [OF assms that [unfolded push_back_def]]
      elements_cong [of h' h v]
    by (simp add: size_v_def capacity_def)
  from r p show ?thesis by blast
qed

theorem strong_guarantee_witness:
  "heap_ok heap_56 \<and> (nothrow_move copy_env \<or> copyable copy_env)
   \<and> reserve copy_env 4 (heap_56, vec_56) =
       Inl (Throw ElemFailure
             (\<lparr>blocks = [(1, [Live 5, Live 6])], next_id = 3, ctor_calls = 2\<rparr>, vec_56))
   \<and> push_back copy_env 9 (heap_56, vec_56) =
       Inl (Throw ElemFailure
             (\<lparr>blocks = [(1, [Live 5, Live 6])], next_id = 3, ctor_calls = 2\<rparr>, vec_56))
   \<and> elements \<lparr>blocks = [(1, [Live 5, Live 6])], next_id = 3, ctor_calls = 2\<rparr> vec_56
       = elements heap_56 vec_56
   \<and> lookup \<lparr>blocks = [(1, [Live 5, Live 6])], next_id = 3, ctor_calls = 2\<rparr>
       = lookup heap_56"
proof -
  have a: "heap_ok heap_56" by code_simp
  have b: "nothrow_move copy_env \<or> copyable copy_env" by code_simp
  have c: "reserve copy_env 4 (heap_56, vec_56) =
       Inl (Throw ElemFailure
             (\<lparr>blocks = [(1, [Live 5, Live 6])], next_id = 3, ctor_calls = 2\<rparr>, vec_56))"
    by code_simp
  have d: "push_back copy_env 9 (heap_56, vec_56) =
       Inl (Throw ElemFailure
             (\<lparr>blocks = [(1, [Live 5, Live 6])], next_id = 3, ctor_calls = 2\<rparr>, vec_56))"
    by code_simp
  show ?thesis
    using strong_guarantee [OF a b, of 4 vec_56 ElemFailure
        "\<lparr>blocks = [(1, [Live 5, Live 6])], next_id = 3, ctor_calls = 2\<rparr>" vec_56 9]
      a b c d
    by simp
qed

section \<open>Sequences of push_back\<close>

text \<open>
  C1. Starting from a default-constructed container, \<open>n\<close> calls of \<^verbatim>\<open>push_back\<close> leave
  \<^verbatim>\<open>size()\<close> equal to \<open>n\<close> and, for every \<open>i < n\<close>, the \<open>i\<close>-th pushed value at index \<open>i\<close>.
  The calls are those in which neither a constructor nor the allocator fails, and \<open>n\<close>
  is at most \<open>2\<^sup>6\<^sup>3\<close>, so that doubling the capacity stays inside \<^verbatim>\<open>size_t\<close>.
\<close>

theorem push_back_sequence:
  assumes "\<forall>k. \<not> throws env k" and "\<forall>n. can_alloc env n" and "heap_ok h"
    and "length xs \<le> 2 ^ 63"
  shows "\<exists>h' v'. push_all env xs (h, vector_default) = Inr (h', v')
           \<and> size_v v' = of_nat (length xs) \<and> unat (size_v v') = length xs
           \<and> (\<forall>i<length xs. subscript h' v' (of_nat i) = Some (Live (xs ! i)))"
proof -
  have o: "owns h vector_default []"
    by (simp add: owns_def vector_default_def nullptr_def)
  have "length ([] :: 'a list) + length xs \<le> 2 ^ 63" using assms(4) by simp
  from push_all_ok [OF assms(1,2) assms(3) o this]
  obtain h' v' where r: "push_all env xs (h, vector_default) = Inr (h', v')"
    and ow: "owns h' v' xs" by auto
  have len: "length xs = unat (sz v')" using ow by (simp add: owns_def)
  then have "of_nat (length xs) = sz v'" by simp
  with r len owns_subscript [OF ow] show ?thesis
    by (auto simp: size_v_def)
qed

theorem push_back_sequence_witness:
  "(\<forall>k. \<not> throws int_env k) \<and> (\<forall>n. can_alloc int_env n) \<and> heap_ok heap_empty
   \<and> length [1, 2, 3 :: int] \<le> 2 ^ 63
   \<and> push_all int_env [1, 2, 3] (heap_empty, vector_default) =
       Inr (\<lparr>blocks = [(3, [Live 1, Live 2, Live 3, Raw])], next_id = 4, ctor_calls = 6\<rparr>,
            \<lparr>arr = (3, 0), sz = 3, cap = 4\<rparr>)
   \<and> size_v \<lparr>arr = (3, 0), sz = 3, cap = 4\<rparr> = 3
   \<and> subscript \<lparr>blocks = [(3, [Live 1, Live 2, Live (3 :: int), Raw])], next_id = 4, ctor_calls = 6\<rparr>
        \<lparr>arr = (3, 0), sz = 3, cap = 4\<rparr> 0 = Some (Live 1)
   \<and> subscript \<lparr>blocks = [(3, [Live 1, Live 2, Live (3 :: int), Raw])], next_id = 4, ctor_calls = 6\<rparr>
        \<lparr>arr = (3, 0), sz = 3, cap = 4\<rparr> 1 = Some (Live 2)
   \<and> subscript \<lparr>blocks = [(3, [Live 1, Live 2, Live (3 :: int), Raw])], next_id = 4, ctor_calls = 6\<rparr>
        \<lparr>arr = (3, 0), sz = 3, cap = 4\<rparr> 2 = Some (Live 3)"
proof -
  have a: "\<forall>k. \<not> throws int_env k" by (simp add: int_env_def)
  have b: "\<forall>n. can_alloc int_env n" by (simp add: int_env_def)
  have c: "heap_ok heap_empty" by code_simp
  have d: "length [1, 2, 3 :: int] \<le> 2 ^ 63" by simp
  have e: "push_all int_env [1, 2, 3] (heap_empty, vector_default) =
       Inr (\<lparr>blocks = [(3, [Live 1, Live 2, Live 3, Raw])], next_id = 4, ctor_calls = 6\<rparr>,
            \<lparr>arr = (3, 0), sz = 3, cap = 4\<rparr>)"
    by code_simp
  let ?H = "\<lparr>blocks = [(3, [Live 1, Live 2, Live (3 :: int), Raw])], next_id = 4, ctor_calls = 6\<rparr>"
  let ?V = "\<lparr>arr = (3, 0), sz = 3, cap = 4\<rparr>"
  from push_back_sequence [OF a b c d]
  obtain h' v' where r: "push_all int_env [1, 2, 3] (heap_empty, vector_default) = Inr (h', v')"
    and f: "size_v v' = of_nat (length [1, 2, 3 :: int])"
    and g: "\<forall>i<length [1, 2, 3 :: int].
              subscript h' v' (of_nat i) = Some (Live ([1, 2, 3] ! i))"
    by blast
  from r e have eq: "h' = ?H" "v' = ?V" by simp_all
  have g0: "subscript ?H ?V 0 = Some (Live 1)"
    using g [rule_format, of 0] by (simp add: eq)
  have g1: "subscript ?H ?V 1 = Some (Live 2)"
    using g [rule_format, of 1] by (simp add: eq)
  have g2: "subscript ?H ?V 2 = Some (Live 3)"
    using g [rule_format, of 2] by (simp add: eq)
  have f': "size_v ?V = 3" using f by (simp add: eq)
  from a b c d e f' g0 g1 g2 show ?thesis by blast
qed

section \<open>Inserting a range of the container into itself\<close>

text \<open>
  C5. Let the source range \<open>[first, last)\<close> of a range insert lie inside the container's
  own elements: \<open>first = begin() + f\<close> and \<open>last = begin() + l\<close> with \<open>f \<le> l \<le> size()\<close>, and
  let the position be \<open>begin() + p\<close> with \<open>p \<le> size()\<close>. When the range is not empty the
  test of \<^verbatim>\<open>insert_dispatch\<close> finds the overlap, and the elements are then taken from the
  copy \<open>temp\<close> made before anything is shifted. The call returns, and the container
  then holds the original sequence with a copy of its elements \<open>f, \<dots>, l - 1\<close> inserted
  before position \<open>p\<close>. (No constructor and no allocation fails, and the size is below
  \<open>2\<^sup>6\<^sup>3\<close>.)
\<close>

theorem insert_own_range:
  assumes ok: "heap_ok h" and ow: "owns h v xs"
    and nt: "\<forall>k. \<not> throws env k" and ca: "\<forall>n. can_alloc env n"
    and fl: "f \<le> l" and ln: "l \<le> length xs" and p: "p \<le> length xs"
    and bound: "length xs < 2 ^ 63"
  shows "(f < l \<longrightarrow> aliases v (ptr_add (begin_v v) (int f)) (ptr_add (begin_v v) (int l)))
         \<and> (\<exists>it h' v'.
               insert_dispatch env (ptr_add (begin_v v) (int p)) (ptr_add (begin_v v) (int f))
                 (ptr_add (begin_v v) (int l)) (h, v) = Inr (it, h', v')
               \<and> heap_ok h'
               \<and> owns h' v' (take p xs @ take (l - f) (drop f xs) @ drop p xs))"
proof -
  let ?pos = "ptr_add (begin_v v) (int p)" and ?first = "ptr_add (begin_v v) (int f)"
    and ?last = "ptr_add (begin_v v) (int l)"
  let ?a = "fst (arr v)" and ?n = "length xs"
  let ?sub = "take (l - f) (drop f xs)"
  define c where "c = l - f"
  have len: "?n = unat (sz v)" using ow by (simp add: owns_def)
  have off: "snd (arr v) = 0" using ow by (simp add: owns_def)
  have un: "uint (sz v) = int ?n" using len by (simp only: uint_nat)
  have chk: "\<not> (ptr_less ?pos (begin_v v) \<or> ptr_less (end_v v) ?pos)"
    using p by (simp add: ptr_less_def begin_v_def end_v_def ptr_add_def un)
  have pd: "ptr_diff ?last ?first = Some (int c)" "ptr_diff ?pos (begin_v v) = Some (int p)"
    using fl by (simp_all add: ptr_diff_def ptr_add_def c_def)
  have c64: "c < 2 ^ 64" "p < 2 ^ 64" "?n + c < 2 ^ 64"
    using bound ln p fl by (simp_all add: c_def)
  have wc: "(word_of_int (int c) :: size_type) = of_nat c"
    and wp: "(word_of_int (int p) :: size_type) = of_nat p" by simp_all
  have uc: "unat (of_nat c :: size_type) = c" and up: "unat (of_nat p :: size_type) = p"
    using c64 by (simp_all add: unat_of_nat_64)
  have al: "aliases v ?first ?last" if "f < l"
    using that ln by (simp add: aliases_def ptr_le_def ptr_less_def begin_v_def end_v_def
        ptr_add_def un)
  have run: "\<exists>it h' v'. insert_dispatch env ?pos ?first ?last (h, v) = Inr (it, h', v')
               \<and> heap_ok h' \<and> owns h' v' (take p xs @ ?sub @ drop p xs)"
  proof (cases "f < l")
    case False
    with fl have c0: "c = 0" by (simp add: c_def)
    have "(word_of_int (int c) :: size_type) = 0" using c0 by simp
    from insert_dispatch_nothing [OF chk pd this]
    have "insert_dispatch env ?pos ?first ?last (h, v)
         = Inr (ptr_add (begin_v v) (sint (word_of_int (int p) :: size_type)), h, v)" .
    moreover have "take p xs @ ?sub @ drop p xs = xs" using c0 by (simp add: c_def)
    ultimately show ?thesis using ok ow by simp
  next
    case True
    then have cpos: "0 < c" by (simp add: c_def)
    have nn: "arr v \<noteq> nullptr"
      using owns_null(3) [OF ow] True ln by auto
    note o = owns_block [OF ow nn]
    have av: "begin_v v = (?a, 0)" using o(1) by (simp add: begin_v_def prod_eq_iff)
    have sub: "length ?sub = c" using ln fl by (simp add: c_def)
    let ?A = "map Live xs @ replicate (unat (cap v) - unat (sz v)) Raw"
    let ?t = "next_id h"
    let ?temp = "\<lparr>arr = (?t, 0), sz = of_nat c, cap = of_nat c\<rparr>"
    have "\<exists>h'. vector_range env (?a, int f) (?a, int (f + c)) h = Inr (h', ?temp)
           \<and> lookup h' = (lookup h)(?t \<mapsto> map Live ?sub)
           \<and> next_id h' = Suc ?t"
    proof (rule vector_range_ok [OF ok nt ca o(2)])
      show "f + c \<le> length ?A" using ln fl o(3) by (simp add: c_def)
      show "?A ! (f + i) = Live (?sub ! i)" if "i < c" for i
      proof -
        have "f + i < length xs" "i < l - f" using that ln fl by (simp_all add: c_def)
        then show ?thesis by (simp add: nth_append)
      qed
      show "length ?sub = c" by (rule sub)
      show "c < 2 ^ 64" by (rule c64)
    qed
    then obtain h0 where vr0: "vector_range env (?a, int f) (?a, int (f + c)) h = Inr (h0, ?temp)"
      and l0: "lookup h0 = (lookup h)(?t \<mapsto> map Live ?sub)"
      and n0: "next_id h0 = Suc ?t" by blast
    have fl': "f + c = l" using fl by (simp add: c_def)
    have vr: "vector_range env ?first ?last h = Inr (h0, ?temp)"
      using vr0 by (simp add: av ptr_add_def fl')
    have a_lt: "0 < ?a" "?a < ?t" using heap_ok_lookup [OF ok o(2)] by simp_all
    have ok0: "heap_ok h0"
    proof (rule heap_ok_fresh_key [OF ok n0])
      fix b blk assume "lookup h0 b = Some blk"
      then show "b = ?t \<or> (\<exists>blk0. lookup h b = Some blk0)"
        using l0 by (auto split: if_splits)
    qed
    have ow0: "owns h0 v xs"
      using ow nn a_lt by (simp add: owns_def l0)
    have "\<exists>it h' v'. insert_tail env (of_nat p) (of_nat c)
                (\<lambda>i q. construct_copy env q (ptr_add (begin_v ?temp) (int i))) (h0, v)
              = Inr (it, h', v')
           \<and> heap_ok h' \<and> owns h' v' (take p xs @ ?sub @ drop p xs)
           \<and> lookup h' ?t = Some (map Live ?sub) \<and> ?t \<noteq> fst (arr v')"
    proof (rule insert_tail_ok [OF ok0 ow0 nt ca])
      show "lookup h0 ?t = Some (map Live ?sub)" using l0 by simp
      show "?t \<noteq> ?a" using a_lt by simp
      show "c \<le> length (map Live ?sub)" using sub by simp
      show "length ?sub = c" by (rule sub)
      show "\<And>i. i < c \<Longrightarrow> map Live ?sub ! i = Live (?sub ! i)" using sub by simp
      show "0 < c" by (rule cpos)
      show "p \<le> ?n" by (rule p)
      show "?n + c < 2 ^ 64" by (rule c64)
      show "unat (of_nat p :: size_type) = p" by (rule up)
      show "unat (of_nat c :: size_type) = c" by (rule uc)
      show "\<And>i q hh. construct_copy env q (ptr_add (begin_v ?temp) (int i)) hh
                      = construct_copy env q (?t, int i) hh"
        by (simp add: begin_v_def ptr_add_def)
    qed
    then obtain it h1 v1 where it: "insert_tail env (of_nat p) (of_nat c)
                (\<lambda>i q. construct_copy env q (ptr_add (begin_v ?temp) (int i))) (h0, v)
              = Inr (it, h1, v1)"
      and ok1: "heap_ok h1" and ow1: "owns h1 v1 (take p xs @ ?sub @ drop p xs)"
      and T1: "lookup h1 ?t = Some (map Live ?sub)" and t1: "?t \<noteq> fst (arr v1)"
      by blast
    have tpos: "?t \<noteq> 0" using heap_ok_next [OF ok] by simp
    from destructor_ok [OF T1 tpos sub c64(1)]
    obtain h2 where ds: "destructor (h1, ?temp) = Some h2"
      and l2: "lookup h2 = (lookup h1)(?t := None)" and n2: "next_id h2 = next_id h1"
      by blast
    have cnt: "(word_of_int (int c) :: size_type) \<noteq> 0"
      using uc cpos by (auto simp: wc)
    have it': "insert_tail env (word_of_int (int p)) (word_of_int (int c))
                (\<lambda>i q. construct_copy env q (ptr_add (begin_v ?temp) (int i))) (h0, v)
              = Inr (it, h1, v1)"
      using it by (simp only: wc wp)
    have res: "insert_dispatch env ?pos ?first ?last (h, v) = Inr (it, h2, v1)"
      using chk pd cnt al [OF True] vr it' ds by (rule insert_dispatch_alias)
    have ok2: "heap_ok h2"
    proof (rule heap_ok_same_keys [OF ok1 n2])
      fix b blk assume "lookup h2 b = Some blk"
      then show "\<exists>blk0. lookup h1 b = Some blk0"
        using l2 by (auto split: if_splits)
    qed
    have ow2: "owns h2 v1 (take p xs @ ?sub @ drop p xs)"
      using ow1 t1 by (simp add: owns_def l2)
    from res ok2 ow2 show ?thesis by blast
  qed
  from al run show ?thesis by blast
qed

theorem insert_own_range_witness:
  "heap_ok heap_123 \<and> owns heap_123 vec_123 [1, 2, 3]
   \<and> (\<forall>k. \<not> throws int_env k) \<and> (\<forall>n. can_alloc int_env n)
   \<and> aliases vec_123 (ptr_add (begin_v vec_123) 0) (ptr_add (begin_v vec_123) 3)
   \<and> (\<exists>it h' v'.
         insert_dispatch int_env (ptr_add (begin_v vec_123) 1) (ptr_add (begin_v vec_123) 0)
           (ptr_add (begin_v vec_123) 3) (heap_123, vec_123) = Inr (it, h', v')
         \<and> heap_ok h' \<and> owns h' v' [1, 1, 2, 3, 2, 3])
   \<and> insert_dispatch int_env (ptr_add (begin_v vec_123) 1) (ptr_add (begin_v vec_123) 0)
           (ptr_add (begin_v vec_123) 3) (heap_123, vec_123) =
       Inr ((3, 1),
            \<lparr>blocks = [(3, [Live 1, Live 1, Live 2, Live 3, Live 2, Live 3, Raw, Raw])],
               next_id = 4, ctor_calls = 11\<rparr>,
            \<lparr>arr = (3, 0), sz = 6, cap = 8\<rparr>)"
proof -
  have a: "heap_ok heap_123" by code_simp
  have b: "owns heap_123 vec_123 [1, 2, 3]" by code_simp
  have c: "\<forall>k. \<not> throws int_env k" by (simp add: int_env_def)
  have d: "\<forall>n. can_alloc int_env n" by (simp add: int_env_def)
  have e: "insert_dispatch int_env (ptr_add (begin_v vec_123) 1) (ptr_add (begin_v vec_123) 0)
           (ptr_add (begin_v vec_123) 3) (heap_123, vec_123) =
       Inr ((3, 1),
            \<lparr>blocks = [(3, [Live 1, Live 1, Live 2, Live 3, Live 2, Live 3, Raw, Raw])],
               next_id = 4, ctor_calls = 11\<rparr>,
            \<lparr>arr = (3, 0), sz = 6, cap = 8\<rparr>)"
    by code_simp
  have "(0::nat) \<le> 3" "(3::nat) \<le> length [1, 2, 3 :: int]" "(1::nat) \<le> length [1, 2, 3 :: int]"
    "length [1, 2, 3 :: int] < 2 ^ 63"
    by simp_all
  from insert_own_range [OF a b c d this]
  have "aliases vec_123 (ptr_add (begin_v vec_123) 0) (ptr_add (begin_v vec_123) 3)"
    and "\<exists>it h' v'.
         insert_dispatch int_env (ptr_add (begin_v vec_123) 1) (ptr_add (begin_v vec_123) 0)
           (ptr_add (begin_v vec_123) 3) (heap_123, vec_123) = Inr (it, h', v')
         \<and> heap_ok h' \<and> owns h' v' [1, 1, 2, 3, 2, 3]"
    by simp_all
  with a b c d e show ?thesis by blast
qed

end
